theory Spec2Isabelle
  imports Main
begin

section \<open>JavaScript values\<close>

text \<open>
  The values that flow through the chain executor are the values of JSON: parameters and
  metadata arrive in a JSON request, and everything read back from the cache went
  through \<open>JSON.parse\<close>. An object is its list of own properties in enumeration order
  (JavaScript keeps the keys of an object distinct; the order in which it lists keys that
  look like array indices is not modelled). Numbers are modelled as integers. An optional
  property that is absent and one that holds \<open>undefined\<close> are the same thing here
  (\<open>JSON.stringify\<close> drops both).
\<close>

datatype json =
    JNull
  | JBool bool
  | JNum int
  | JStr string
  | JArr "json list"
  | JObj "(string \<times> json) list"

type_synonym jsobject = "(string \<times> json) list"

text \<open>The \<open>typeof\<close> operator: \<open>null\<close> and arrays are objects.\<close>

fun typeof :: "json \<Rightarrow> string" where
  "typeof JNull = ''object''"
| "typeof (JBool b) = ''boolean''"
| "typeof (JNum n) = ''number''"
| "typeof (JStr s) = ''string''"
| "typeof (JArr vs) = ''object''"
| "typeof (JObj kvs) = ''object''"

text \<open>
  A parameter object is a plain object: besides its own properties it has the members it
  inherits from \<open>Object.prototype\<close>. These are functions, except \<open>__proto__\<close>,
  which reads as the prototype object.
\<close>

definition object_prototype_keys :: "string list" where
  "object_prototype_keys =
     [''constructor'', ''__defineGetter__'', ''__defineSetter__'', ''hasOwnProperty'',
      ''__lookupGetter__'', ''__lookupSetter__'', ''isPrototypeOf'', ''propertyIsEnumerable'',
      ''toString'', ''valueOf'', ''__proto__'', ''toLocaleString'']"

text \<open>\<open>key in obj\<close>: true of an own property and of an inherited member.\<close>

definition has_key :: "string \<Rightarrow> jsobject \<Rightarrow> bool" where
  "has_key key obj = (map_of obj key \<noteq> None \<or> key \<in> set object_prototype_keys)"

text \<open>
  \<open>typeof obj[key]\<close> for a key that is in \<open>obj\<close>: an own property hides the
  inherited member of the same name.
\<close>

definition typeof_member :: "string \<Rightarrow> jsobject \<Rightarrow> string" where
  "typeof_member key obj =
     (case map_of obj key of
        Some v \<Rightarrow> typeof v
      | None \<Rightarrow> if key = ''__proto__'' then ''object'' else ''function'')"

section \<open>JSON text: \<open>JSON.stringify\<close> and \<open>JSON.parse\<close>\<close>

text \<open>
  The program serialises parameters into cache keys and results into cache payloads with
  \<open>JSON.stringify\<close>, and reads payloads back with \<open>JSON.parse\<close>. Both are
  library functions; they are written out here for the values above. Integers are
  written in decimal. Strings are byte strings: the quote, the backslash and the control
  characters are escaped, every other character is copied.
\<close>

definition digit_char :: "nat \<Rightarrow> char" where
  "digit_char n = ''0123456789abcdef'' ! n"

fun show_nat :: "nat \<Rightarrow> string" where
  "show_nat n = (if n < 10 then [digit_char n] else show_nat (n div 10) @ [digit_char (n mod 10)])"

declare show_nat.simps [simp del]

definition show_int :: "int \<Rightarrow> string" where
  "show_int i = (if i < 0 then CHR ''-'' # show_nat (nat (- i)) else show_nat (nat i))"

definition escape_char :: "char \<Rightarrow> string" where
  "escape_char c =
     (if c = CHR 0x22 then [CHR 0x5C, CHR 0x22]
      else if c = CHR 0x5C then [CHR 0x5C, CHR 0x5C]
      else if c = CHR 0x08 then [CHR 0x5C, CHR ''b'']
      else if c = CHR 0x0C then [CHR 0x5C, CHR ''f'']
      else if c = CHR 0x0A then [CHR 0x5C, CHR ''n'']
      else if c = CHR 0x0D then [CHR 0x5C, CHR ''r'']
      else if c = CHR 0x09 then [CHR 0x5C, CHR ''t'']
      else if (of_char c :: nat) < 32
        then [CHR 0x5C, CHR ''u'', CHR ''0'', CHR ''0'',
              digit_char (of_char c div 16), digit_char (of_char c mod 16)]
      else [c])"

definition quote :: "string \<Rightarrow> string" where
  "quote s = CHR 0x22 # concat (map escape_char s) @ [CHR 0x22]"

fun join :: "string \<Rightarrow> string list \<Rightarrow> string" where
  "join sep [] = []"
| "join sep [x] = x"
| "join sep (x # y # ys) = x @ sep @ join sep (y # ys)"

fun JSON_stringify :: "json \<Rightarrow> string" where
  "JSON_stringify JNull = ''null''"
| "JSON_stringify (JBool b) = (if b then ''true'' else ''false'')"
| "JSON_stringify (JNum n) = show_int n"
| "JSON_stringify (JStr s) = quote s"
| "JSON_stringify (JArr vs) = ''['' @ join '','' (map JSON_stringify vs) @ '']''"
| "JSON_stringify (JObj kvs) =
     ''{'' @ join '','' (map (\<lambda>(k, v). quote k @ '':'' @ JSON_stringify v) kvs) @ ''}''"


definition is_digit :: "char \<Rightarrow> bool" where
  "is_digit c = (c \<in> set ''0123456789'')"

definition hex_val :: "char \<Rightarrow> nat option" where
  "hex_val c =
     (let n = (of_char c :: nat) in
      if 48 \<le> n \<and> n \<le> 57 then Some (n - 48)
      else if 97 \<le> n \<and> n \<le> 102 then Some (n - 87)
      else if 65 \<le> n \<and> n \<le> 70 then Some (n - 55)
      else None)"

definition digits_val :: "string \<Rightarrow> nat" where
  "digits_val ds = foldl (\<lambda>a c. a * 10 + (of_char c - 48)) 0 ds"

definition hex4 :: "char \<Rightarrow> char \<Rightarrow> char \<Rightarrow> char \<Rightarrow> nat option" where
  "hex4 h1 h2 h3 h4 =
     (case (hex_val h1, hex_val h2, hex_val h3, hex_val h4) of
        (Some a, Some b, Some c, Some d) \<Rightarrow> Some (((a * 16 + b) * 16 + c) * 16 + d)
      | _ \<Rightarrow> None)"

definition unescape :: "char \<Rightarrow> char option" where
  "unescape e =
     (if e = CHR 0x22 then Some (CHR 0x22)
      else if e = CHR 0x5C then Some (CHR 0x5C)
      else if e = CHR ''/'' then Some (CHR ''/'')
      else if e = CHR ''b'' then Some (CHR 0x08)
      else if e = CHR ''f'' then Some (CHR 0x0C)
      else if e = CHR ''n'' then Some (CHR 0x0A)
      else if e = CHR ''r'' then Some (CHR 0x0D)
      else if e = CHR ''t'' then Some (CHR 0x09)
      else None)"

fun parse_chars :: "string \<Rightarrow> (string \<times> string) option" where
  "parse_chars [] = None"
| "parse_chars (c # cs) =
    (if c = CHR 0x22 then Some ([], cs)
     else if c = CHR 0x5C then
       (case cs of
          [] \<Rightarrow> None
        | e # r \<Rightarrow>
            if e = CHR ''u'' then
              (case r of
                 h1 # h2 # h3 # h4 # r' \<Rightarrow>
                   (case hex4 h1 h2 h3 h4 of
                      None \<Rightarrow> None
                    | Some n \<Rightarrow>
                        if n < 256 then
                          (case parse_chars r' of
                             None \<Rightarrow> None
                           | Some (s, t) \<Rightarrow> Some (char_of n # s, t))
                        else None)
               | _ \<Rightarrow> None)
            else
              (case unescape e of
                 None \<Rightarrow> None
               | Some ch \<Rightarrow>
                   (case parse_chars r of
                      None \<Rightarrow> None
                    | Some (s, t) \<Rightarrow> Some (ch # s, t))))
     else if (of_char c :: nat) < 32 then None
     else (case parse_chars cs of None \<Rightarrow> None | Some (s, t) \<Rightarrow> Some (c # s, t)))"

definition parse_nat :: "string \<Rightarrow> (nat \<times> string) option" where
  "parse_nat s =
     (let ds = takeWhile is_digit s in
      if ds = [] \<or> (1 < length ds \<and> hd ds = CHR ''0'') then None
      else Some (digits_val ds, dropWhile is_digit s))"

definition parse_number :: "string \<Rightarrow> (json \<times> string) option" where
  "parse_number s =
     (case s of
        [] \<Rightarrow> None
      | c # r \<Rightarrow>
          if c = CHR ''-'' then
            (case parse_nat r of None \<Rightarrow> None | Some (n, t) \<Rightarrow> Some (JNum (- int n), t))
          else
            (case parse_nat s of None \<Rightarrow> None | Some (n, t) \<Rightarrow> Some (JNum (int n), t)))"

text \<open>
  The recursive-descent parser. Every parser returns the value read and the text left
  over, or \<open>None\<close> where \<open>JSON.parse\<close> throws a \<open>SyntaxError\<close>. The comparisons
  of lengths state that the text left over is shorter than the text read, which is always
  so (lemma \<open>parse_value_shorter\<close> below); they make the recursion well-founded. The
  parser accepts the texts \<open>JSON.stringify\<close> writes for the values above (no white
  space, integers only, escapes of bytes only) and keeps the members of an object as they
  are listed.
\<close>

function (sequential) parse_value :: "string \<Rightarrow> (json \<times> string) option"
  and parse_elems :: "string \<Rightarrow> (json list \<times> string) option"
  and parse_members :: "string \<Rightarrow> ((string \<times> json) list \<times> string) option"
where
  "parse_value [] = None"
| "parse_value (c # cs) =
     (if c = CHR ''n'' then (if take 3 cs = ''ull'' then Some (JNull, drop 3 cs) else None)
      else if c = CHR ''t'' then (if take 3 cs = ''rue'' then Some (JBool True, drop 3 cs) else None)
      else if c = CHR ''f'' then (if take 4 cs = ''alse'' then Some (JBool False, drop 4 cs) else None)
      else if c = CHR 0x22 then
        (case parse_chars cs of None \<Rightarrow> None | Some (s, r) \<Rightarrow> Some (JStr s, r))
      else if c = CHR ''['' then
        (if cs \<noteq> [] \<and> hd cs = CHR '']'' then Some (JArr [], tl cs)
         else (case parse_elems cs of None \<Rightarrow> None | Some (vs, r) \<Rightarrow> Some (JArr vs, r)))
      else if c = CHR ''{'' then
        (if cs \<noteq> [] \<and> hd cs = CHR ''}'' then Some (JObj [], tl cs)
         else (case parse_members cs of None \<Rightarrow> None | Some (kvs, r) \<Rightarrow> Some (JObj kvs, r)))
      else parse_number (c # cs))"
| "parse_elems s =
     (case parse_value s of
        None \<Rightarrow> None
      | Some (v, r) \<Rightarrow>
          (case r of
             [] \<Rightarrow> None
           | d # r' \<Rightarrow>
               if d = CHR '']'' then Some ([v], r')
               else if d = CHR '','' \<and> length r' < length s then
                 (case parse_elems r' of
                    None \<Rightarrow> None
                  | Some (vs, r'') \<Rightarrow> Some (v # vs, r''))
               else None))"
| "parse_members s =
     (case s of
        [] \<Rightarrow> None
      | q # s1 \<Rightarrow>
          if q \<noteq> CHR 0x22 then None
          else
            (case parse_chars s1 of
               None \<Rightarrow> None
             | Some (k, s2) \<Rightarrow>
                 (case s2 of
                    [] \<Rightarrow> None
                  | col # s3 \<Rightarrow>
                      if col \<noteq> CHR '':'' \<or> \<not> length s3 < length s then None
                      else
                        (case parse_value s3 of
                           None \<Rightarrow> None
                         | Some (v, r) \<Rightarrow>
                             (case r of
                                [] \<Rightarrow> None
                              | d # r' \<Rightarrow>
                                  if d = CHR ''}'' then Some ([(k, v)], r')
                                  else if d = CHR '','' \<and> length r' < length s then
                                    (case parse_members r' of
                                       None \<Rightarrow> None
                                     | Some (kvs, r'') \<Rightarrow> Some ((k, v) # kvs, r''))
                                  else None)))))"
  by pat_completeness auto
termination
  by (relation "measure (\<lambda>x. case x of Inl s \<Rightarrow> 2 * length s
                               | Inr (Inl s) \<Rightarrow> 2 * length s + 1
                               | Inr (Inr s) \<Rightarrow> 2 * length s + 1)") auto

definition JSON_parse :: "string \<Rightarrow> json option" where
  "JSON_parse s = (case parse_value s of Some (v, []) \<Rightarrow> Some v | _ \<Rightarrow> None)"

declare parse_elems.simps [simp del] parse_members.simps [simp del]

text \<open>
  A text may follow a serialised value when it cannot be taken for more digits of a number.
\<close>

definition ok_rest :: "string \<Rightarrow> bool" where
  "ok_rest rest = (rest = [] \<or> \<not> is_digit (hd rest))"

section \<open>The cache (src/src/cache.ts)\<close>

record CacheEntry =
  result :: string
  timestamp :: int
  ttl :: int
  metadata :: "jsobject option"

type_synonym store = "string \<rightharpoonup> CacheEntry"

text \<open>
  \<open>Date.now()\<close> is the parameter \<open>now\<close>, in milliseconds; \<open>ttl\<close> is in seconds.
  Every method returns its value together with the store it leaves behind.
\<close>

definition expired :: "int \<Rightarrow> CacheEntry \<Rightarrow> bool" where
  "expired now entry = (now - timestamp entry > ttl entry * 1000)"

definition cache_get :: "int \<Rightarrow> string \<Rightarrow> store \<Rightarrow> string option \<times> store" where
  "cache_get now key st =
     (case st key of
        None \<Rightarrow> (None, st)
      | Some entry \<Rightarrow>
          if expired now entry then (None, st(key := None))
          else (Some (result entry), st))"

definition cache_set ::
  "int \<Rightarrow> string \<Rightarrow> string \<Rightarrow> int \<Rightarrow> jsobject option \<Rightarrow> store \<Rightarrow> store" where
  "cache_set now key res t md st =
     st(key \<mapsto> \<lparr>result = res, timestamp = now, ttl = t, metadata = md\<rparr>)"

definition getMetadata :: "string \<Rightarrow> store \<Rightarrow> jsobject option \<times> store" where
  "getMetadata key st =
     (case st key of None \<Rightarrow> (None, st) | Some entry \<Rightarrow> (metadata entry, st))"

definition cache_has :: "int \<Rightarrow> string \<Rightarrow> store \<Rightarrow> bool \<times> store" where
  "cache_has now key st = (case cache_get now key st of (r, st') \<Rightarrow> (r \<noteq> None, st'))"

definition cache_delete :: "string \<Rightarrow> store \<Rightarrow> store" where
  "cache_delete key st = st(key := None)"

definition cache_clear :: "store \<Rightarrow> store" where
  "cache_clear st = Map.empty"

definition cleanup :: "int \<Rightarrow> store \<Rightarrow> store" where
  "cleanup now st =
     (\<lambda>key. case st key of
               None \<Rightarrow> None
             | Some entry \<Rightarrow> if expired now entry then None else Some entry)"

section \<open>Parameter validation (src/src/tool-chain.ts, validateParams)\<close>

record SchemaProperty =
  type :: string
  description :: "string option"

record ValidationSchema =
  properties :: "(string \<times> SchemaProperty) list"
  required :: "string list option"

text \<open>
  \<open>schema.required?.includes(key)\<close>: false when the schema has no \<open>required\<close> list.
\<close>

definition is_required :: "ValidationSchema \<Rightarrow> string \<Rightarrow> bool" where
  "is_required schema key =
     (case required schema of None \<Rightarrow> False | Some ks \<Rightarrow> key \<in> set ks)"

definition missing_msg :: "string \<Rightarrow> string" where
  "missing_msg key = ''Missing required parameter: '' @ key"

definition invalid_msg :: "string \<Rightarrow> string \<Rightarrow> string \<Rightarrow> string" where
  "invalid_msg key expected got =
     ''Invalid type for parameter '' @ key @ '': expected '' @ expected @ '', got '' @ got"

text \<open>
  The loop over \<open>Object.entries(schema.properties)\<close>. \<open>Inl msg\<close> is the thrown
  \<open>Error(msg)\<close>; the first offending property ends the loop. An empty type tag is
  falsy, so the guard \<open>value.type && ...\<close> skips the comparison (a property that
  declares no type is the same case).
\<close>

fun validate_entries ::
  "jsobject \<Rightarrow> ValidationSchema \<Rightarrow> (string \<times> SchemaProperty) list \<Rightarrow> string + unit" where
  "validate_entries params schema [] = Inr ()"
| "validate_entries params schema ((key, value) # rest) =
     (if is_required schema key \<and> \<not> has_key key params then Inl (missing_msg key)
      else if has_key key params \<and> type value \<noteq> []
              \<and> typeof_member key params \<noteq> type value
           then Inl (invalid_msg key (type value) (typeof_member key params))
      else validate_entries params schema rest)"

definition validateParams :: "jsobject \<Rightarrow> ValidationSchema \<Rightarrow> string + unit" where
  "validateParams params schema = validate_entries params schema (properties schema)"


section \<open>The chain executor (src/src/tool-chain.ts)\<close>

record ToolChainStep =
  toolName :: string
  params :: jsobject
  step_metadata :: "jsobject option"

record ToolChainContext =
  previousResults :: "json list"
  context_metadata :: jsobject

record ToolChain =
  steps :: "ToolChainStep list"
  chain_context :: ToolChainContext

record ChainableToolConfig =
  name :: string
  tool_description :: string
  inputSchema :: ValidationSchema
  chainable :: bool
  requiresPrevious :: "bool option"
  metadataSchema :: "jsobject option"

record ToolChainManager =
  tools :: "string \<rightharpoonup> ChainableToolConfig"
  cache :: store

definition new_manager :: ToolChainManager where
  "new_manager = \<lparr>tools = Map.empty, cache = Map.empty\<rparr>"

definition registerTool :: "ChainableToolConfig \<Rightarrow> ToolChainManager \<Rightarrow> ToolChainManager" where
  "registerTool config m = m\<lparr>tools := (tools m)(name config \<mapsto> config)\<rparr>"

text \<open>
  What a \<open>throw\<close> statement threw: an \<open>Error\<close> with its message, or any other
  value. The catch blocks read \<open>error instanceof Error ? error.message : 'Unknown error'\<close>.
\<close>

datatype thrown = Error string | NonError

fun error_message :: "thrown \<Rightarrow> string" where
  "error_message (Error msg) = msg"
| "error_message NonError = ''Unknown error''"

text \<open>
  The tool-invocation collaborator: given the tool's contract, the step's parameters and
  the chain context it returns a value or throws. \<open>executeTool\<close> is the one in the
  source, a placeholder that always throws; the executor below takes the collaborator as
  a parameter, so that what is proved holds for this one and for any handler put in its
  place.
\<close>

type_synonym invoker =
  "ChainableToolConfig \<Rightarrow> jsobject \<Rightarrow> ToolChainContext \<Rightarrow> thrown + json"

type_synonym call = "ChainableToolConfig \<times> jsobject \<times> ToolChainContext"

definition executeTool :: invoker where
  "executeTool tool ps ctx = Inl (Error ''Tool execution not implemented'')"

subsection \<open>Result objects and property reads\<close>

definition metadata_prop :: "jsobject option \<Rightarrow> jsobject" where
  "metadata_prop md = (case md of None \<Rightarrow> [] | Some m \<Rightarrow> [(''metadata'', JObj m)])"

text \<open>\<open>{success: true, result: r, metadata: step.metadata}\<close>\<close>

definition success_result :: "json \<Rightarrow> jsobject option \<Rightarrow> json" where
  "success_result r md =
     JObj ([(''success'', JBool True), (''result'', r)] @ metadata_prop md)"

text \<open>
  \<open>{success: false, result: null, error: msg, metadata: step.metadata}\<close>, built by the
  catch block of \<open>executeStep\<close>.
\<close>

definition step_failure :: "string \<Rightarrow> jsobject option \<Rightarrow> json" where
  "step_failure msg md =
     JObj ([(''success'', JBool False), (''result'', JNull), (''error'', JStr msg)]
           @ metadata_prop md)"

text \<open>
  \<open>{success: false, result: null, error: msg}\<close>, built by the catch block of the loop
  in \<open>executeChain\<close>.
\<close>

definition chain_failure :: "string \<Rightarrow> json" where
  "chain_failure msg =
     JObj [(''success'', JBool False), (''result'', JNull), (''error'', JStr msg)]"

fun truthy :: "json \<Rightarrow> bool" where
  "truthy JNull = False"
| "truthy (JBool b) = b"
| "truthy (JNum n) = (n \<noteq> 0)"
| "truthy (JStr s) = (s \<noteq> [])"
| "truthy (JArr vs) = True"
| "truthy (JObj kvs) = True"

text \<open>
  The read \<open>v.key\<close> for a \<open>v\<close> that is not \<open>null\<close> and a key that no prototype
  defines (\<open>success\<close>, \<open>metadata\<close>): the own property of an object, \<open>undefined\<close>
  (\<open>None\<close>) on an array or a primitive. On \<open>null\<close> the read throws a
  \<open>TypeError\<close>; the callers below test for \<open>null\<close> first.
\<close>

definition get_prop :: "json \<Rightarrow> string \<Rightarrow> json option" where
  "get_prop v key = (case v of JObj kvs \<Rightarrow> map_of kvs key | _ \<Rightarrow> None)"

definition truthy_prop :: "json \<Rightarrow> string \<Rightarrow> bool" where
  "truthy_prop v key = (case get_prop v key of None \<Rightarrow> False | Some x \<Rightarrow> truthy x)"

definition null_read_msg :: string where
  "null_read_msg =
     ''Cannot read properties of null (reading '' @ [CHR 0x27] @ ''success'' @ [CHR 0x27] @ '')''"

text \<open>
  The object spread \<open>{...a, ...b}\<close>: the own enumerable properties of \<open>b\<close> are
  written over \<open>a\<close>, a key already there keeps its place.
\<close>

fun set_prop :: "string \<Rightarrow> json \<Rightarrow> jsobject \<Rightarrow> jsobject" where
  "set_prop key v [] = [(key, v)]"
| "set_prop key v ((k, x) # rest) =
     (if k = key then (k, v) # rest else (k, x) # set_prop key v rest)"

fun spread_props :: "json \<Rightarrow> jsobject" where
  "spread_props (JObj kvs) = kvs"
| "spread_props (JArr vs) = zip (map show_nat [0..<length vs]) vs"
| "spread_props (JStr s) = zip (map show_nat [0..<length s]) (map (\<lambda>c. JStr [c]) s)"
| "spread_props v = []"

definition spread :: "jsobject \<Rightarrow> json \<Rightarrow> jsobject" where
  "spread a b = foldl (\<lambda>acc (k, v). set_prop k v acc) a (spread_props b)"

subsection \<open>Cache keys\<close>

text \<open>The template \<open>`${step.toolName}:${JSON.stringify(step.params)}`\<close>.\<close>

definition step_key :: "ToolChainStep \<Rightarrow> string" where
  "step_key step = toolName step @ '':'' @ JSON_stringify (JObj (params step))"

text \<open>\<open>Cache.generateChainKey\<close> (src/src/cache.ts): the rendered steps joined by a bar.\<close>

definition generateChainKey :: "ToolChainStep list \<Rightarrow> string" where
  "generateChainKey sts =
     join ''|'' (map (\<lambda>step. toolName step @ '':'' @ JSON_stringify (JObj (params step))) sts)"

text \<open>
  The idiom \<open>if (cached) { try { return JSON.parse(cached) } catch { log } }\<close>: an absent
  or empty payload is falsy, a payload that does not parse is logged and skipped.
\<close>

definition parse_cached :: "string option \<Rightarrow> json option" where
  "parse_cached c =
     (case c of None \<Rightarrow> None | Some s \<Rightarrow> if s = [] then None else JSON_parse s)"

subsection \<open>\<open>executeStep\<close>\<close>

text \<open>
  \<open>Inl e\<close> is an exception leaving \<open>executeStep\<close>, \<open>Inr v\<close> the value it returns.
  With the outcome come the store as the step leaves it and the calls made to the
  collaborator. \<open>now\<close> is the reading of \<open>Date.now()\<close> during the call: one
  call of \<open>executeChain\<close> is taken to happen at one instant.
\<close>

definition executeStep ::
  "invoker \<Rightarrow> int \<Rightarrow> (string \<rightharpoonup> ChainableToolConfig) \<Rightarrow> ToolChainStep \<Rightarrow> ToolChainContext
     \<Rightarrow> store \<Rightarrow> (thrown + json) \<times> store \<times> call list" where
  "executeStep invoke now tls step ctx st =
     (case tls (toolName step) of
        None \<Rightarrow> (Inl (Error (''Tool not found: '' @ toolName step)), st, [])
      | Some tool \<Rightarrow>
          if requiresPrevious tool = Some True \<and> previousResults ctx = [] then
            (Inl (Error (''Tool '' @ toolName step @ '' requires previous results'')), st, [])
          else
            (case validateParams (params step) (inputSchema tool) of
               Inl msg \<Rightarrow> (Inl (Error msg), st, [])
             | Inr u \<Rightarrow>
                 (case cache_get now (step_key step) st of
                    (cachedResult, st1) \<Rightarrow>
                      (case parse_cached cachedResult of
                         Some v \<Rightarrow> (Inr v, st1, [])
                       | None \<Rightarrow>
                           (case invoke tool (params step) ctx of
                              Inr r \<Rightarrow>
                                (Inr (success_result r (step_metadata step)),
                                 cache_set now (step_key step)
                                   (JSON_stringify (success_result r (step_metadata step)))
                                   3600 None st1,
                                 [(tool, params step, ctx)])
                            | Inl e \<Rightarrow>
                                (Inr (step_failure (error_message e) (step_metadata step)),
                                 st1,
                                 [(tool, params step, ctx)]))))))"

subsection \<open>\<open>executeChain\<close>\<close>

text \<open>The update of the context after a successful step.\<close>

definition update_context :: "ToolChainContext \<Rightarrow> json \<Rightarrow> ToolChainContext" where
  "update_context ctx res =
     \<lparr>previousResults = previousResults ctx @ [res],
      context_metadata =
        (case get_prop res ''metadata'' of
           None \<Rightarrow> context_metadata ctx
         | Some md \<Rightarrow> if truthy md then spread (context_metadata ctx) md
                      else context_metadata ctx)\<rparr>"

text \<open>
  The loop \<open>for (const step of chain.steps)\<close>, with \<open>results\<close>, the context, the store
  and the log of collaborator calls as accumulators. A step that throws is recorded by
  the catch block and ends the loop; so does a result whose \<open>success\<close> is falsy. Reading
  \<open>success\<close> of a \<open>null\<close> result throws after the result has been pushed.
\<close>

fun run_steps ::
  "invoker \<Rightarrow> int \<Rightarrow> (string \<rightharpoonup> ChainableToolConfig) \<Rightarrow> ToolChainStep list \<Rightarrow> ToolChainContext
     \<Rightarrow> json list \<Rightarrow> store \<Rightarrow> call list \<Rightarrow> json list \<times> store \<times> call list" where
  "run_steps invoke now tls [] ctx results st calls = (results, st, calls)"
| "run_steps invoke now tls (step # rest) ctx results st calls =
     (case executeStep invoke now tls step ctx st of
        (Inl e, st1, cs) \<Rightarrow> (results @ [chain_failure (error_message e)], st1, calls @ cs)
      | (Inr res, st1, cs) \<Rightarrow>
          if res = JNull then
            (results @ [res, chain_failure null_read_msg], st1, calls @ cs)
          else if \<not> truthy_prop res ''success'' then (results @ [res], st1, calls @ cs)
          else run_steps invoke now tls rest (update_context ctx res) (results @ [res]) st1
                 (calls @ cs))"

text \<open>
  \<open>results.every(r => r.success)\<close>: stops at the first falsy \<open>success\<close>, and throws a
  \<open>TypeError\<close> on a \<open>null\<close> element.
\<close>

fun every_success :: "json list \<Rightarrow> thrown + bool" where
  "every_success [] = Inr True"
| "every_success (r # rs) =
     (if r = JNull then Inl (Error null_read_msg)
      else if truthy_prop r ''success'' then every_success rs
      else Inr False)"

text \<open>
  \<open>executeChain\<close> returns what it returned or threw, the manager as the call leaves it,
  and the calls made to the collaborator. On a whole-chain hit the parsed payload is
  returned as it is.
\<close>

definition executeChain ::
  "invoker \<Rightarrow> int \<Rightarrow> ToolChainManager \<Rightarrow> ToolChain
     \<Rightarrow> (thrown + json) \<times> ToolChainManager \<times> call list" where
  "executeChain invoke now m chain =
     (case cache_get now (generateChainKey (steps chain)) (cache m) of
        (cachedResult, st0) \<Rightarrow>
          (case parse_cached cachedResult of
             Some parsed \<Rightarrow> (Inr parsed, m\<lparr>cache := st0\<rparr>, [])
           | None \<Rightarrow>
               (case run_steps invoke now (tools m) (steps chain)
                       \<lparr>previousResults = [], context_metadata = []\<rparr> [] st0 [] of
                  (results, st1, calls) \<Rightarrow>
                    (case every_success results of
                       Inl e \<Rightarrow> (Inl e, m\<lparr>cache := st1\<rparr>, calls)
                     | Inr ok \<Rightarrow>
                         (Inr (JArr results),
                          m\<lparr>cache :=
                              (if ok then
                                 cache_set now (generateChainKey (steps chain))
                                   (JSON_stringify (JArr results)) 3600 None st1
                               else st1)\<rparr>,
                          calls)))))"

text \<open>
  The states a manager can be in: a new one, and what \<open>registerTool\<close> and
  \<open>executeChain\<close> (with any collaborator, at any instant, on any chain) make of one.
  The store is private, so nothing else writes to it.
\<close>

inductive reachable :: "ToolChainManager \<Rightarrow> bool" where
  init: "reachable new_manager"
| register: "reachable m \<Longrightarrow> reachable (registerTool config m)"
| execute:
    "reachable m \<Longrightarrow> executeChain invoke now m chain = (out, m', calls) \<Longrightarrow> reachable m'"

text \<open>
  The states the manager of the source can be in: there the collaborator is the private
  method \<open>executeTool\<close>, and no other can be put in its place.
\<close>

inductive reachable_src :: "ToolChainManager \<Rightarrow> bool" where
  src_init: "reachable_src new_manager"
| src_register: "reachable_src m \<Longrightarrow> reachable_src (registerTool config m)"
| src_execute:
    "reachable_src m \<Longrightarrow> executeChain executeTool now m chain = (out, m', calls) \<Longrightarrow>
     reachable_src m'"

subsection \<open>Notions used in the statements\<close>

text \<open>A step as the key function sees it: its tool name and its serialised parameters.\<close>

definition rendered :: "ToolChainStep \<Rightarrow> string \<times> string" where
  "rendered step = (toolName step, JSON_stringify (JObj (params step)))"

text \<open>What follows a rendered step in a chain key: nothing, or a bar and the key of the rest.\<close>

definition key_tail :: "ToolChainStep list \<Rightarrow> string" where
  "key_tail sts = (if sts = [] then [] else CHR ''|'' # generateChainKey sts)"

text \<open>A step execution that fails: it throws, or it returns a result whose \<open>success\<close> is \<open>false\<close>.\<close>

definition step_fails :: "thrown + json \<Rightarrow> bool" where
  "step_fails out =
     (case out of Inl e \<Rightarrow> True | Inr v \<Rightarrow> get_prop v ''success'' = Some (JBool False))"

text \<open>The entry the loop pushes for the outcome of a step.\<close>

definition recorded :: "thrown + json \<Rightarrow> json" where
  "recorded out = (case out of Inl e \<Rightarrow> chain_failure (error_message e) | Inr v \<Rightarrow> v)"

text \<open>The context \<open>executeChain\<close> starts the loop with.\<close>

definition initial_context :: ToolChainContext where
  "initial_context = \<lparr>previousResults = [], context_metadata = []\<rparr>"

text \<open>The context after the steps whose results are \<open>rs\<close> have succeeded.\<close>

definition context_after :: "json list \<Rightarrow> ToolChainContext" where
  "context_after rs = foldl update_context initial_context rs"

text \<open>
  The run of \<open>executeChain\<close> on \<open>chain\<close> reaches \<open>step\<close>: the lookup under
  the chain key gives nothing to serve (no entry, an expired one, or a payload that is
  empty or does not parse), the steps \<open>pre\<close> before \<open>step\<close> have been executed
  and each has given a result with a truthy \<open>success\<close>; \<open>rs\<close> are these results,
  \<open>st\<close> is the store and \<open>cs\<close> are the calls made to the collaborator at that point.
\<close>

definition reaches_step ::
  "invoker \<Rightarrow> int \<Rightarrow> ToolChainManager \<Rightarrow> ToolChain \<Rightarrow> ToolChainStep list \<Rightarrow> ToolChainStep
     \<Rightarrow> json list \<Rightarrow> store \<Rightarrow> call list \<Rightarrow> bool" where
  "reaches_step invoke now m chain pre step rs st cs \<longleftrightarrow>
     parse_cached (fst (cache_get now (generateChainKey (steps chain)) (cache m))) = None
     \<and> (\<exists>post. steps chain = pre @ step # post)
     \<and> run_steps invoke now (tools m) pre initial_context []
           (snd (cache_get now (generateChainKey (steps chain)) (cache m))) [] = (rs, st, cs)
     \<and> length rs = length pre
     \<and> (\<forall>r \<in> set rs. truthy_prop r ''success'')"

definition success_true :: "json \<Rightarrow> bool" where
  "success_true v = (get_prop v ''success'' = Some (JBool True))"

text \<open>
  What the store holds in every state a manager can reach: under each key a payload
  written by \<open>executeStep\<close> (a serialised success result, under a step key) or by
  \<open>executeChain\<close> (a serialised result list; the empty list under the empty key),
  with a TTL of one hour and no metadata.
\<close>

definition payload_ok :: "string \<Rightarrow> string \<Rightarrow> bool" where
  "payload_ok key s \<longleftrightarrow>
     (key \<noteq> [] \<and> (\<exists>r md. s = JSON_stringify (success_result r md)))
     \<or> (\<exists>rs. s = JSON_stringify (JArr rs) \<and> (key = [] \<longrightarrow> rs = []))"

definition cache_inv :: "store \<Rightarrow> bool" where
  "cache_inv st \<longleftrightarrow> (\<forall>key e. st key = Some e \<longrightarrow>
        payload_ok key (result e) \<and> metadata e = None \<and> ttl e = 3600)"

text \<open>
  The values \<open>executeStep\<close> returns and the loop records in such a state: result
  objects, or the result list of a one-step chain read back under the step's key.
\<close>

definition good_value :: "json \<Rightarrow> bool" where
  "good_value v \<longleftrightarrow>
     (\<exists>r md. v = success_result r md) \<or> (\<exists>msg md. v = step_failure msg md)
     \<or> (\<exists>msg. v = chain_failure msg) \<or> (\<exists>rs. v = JArr rs)"

text \<open>
  What the store holds in every state the manager of the source can reach: nothing but
  an entry under the empty key, the key of the chain without steps.
\<close>

definition only_empty_key :: "store \<Rightarrow> bool" where
  "only_empty_key st \<longleftrightarrow> (\<forall>key. st key \<noteq> None \<longrightarrow> key = [])"

section \<open>Example data\<close>

text \<open>
  The \<open>echo\<close> schema of the specification's example, and steps for the examples
  below. The tool name of \<open>step_odd\<close> contains the two separators of a chain key.
\<close>

definition echo_schema :: ValidationSchema where
  "echo_schema =
     \<lparr>properties = [(''msg'', \<lparr>type = ''string'', description = None\<rparr>)],
      required = Some [''msg'']\<rparr>"

text \<open>Schemas whose declared properties are named like members of \<open>Object.prototype\<close>.\<close>

definition constructor_schema :: ValidationSchema where
  "constructor_schema =
     \<lparr>properties = [(''constructor'', \<lparr>type = ''function'', description = None\<rparr>)],
      required = Some [''constructor'']\<rparr>"

definition toString_schema :: ValidationSchema where
  "toString_schema =
     \<lparr>properties = [(''toString'', \<lparr>type = ''string'', description = None\<rparr>)],
      required = Some [''toString'']\<rparr>"

definition step_a :: ToolChainStep where
  "step_a = \<lparr>toolName = ''a'', params = [], step_metadata = None\<rparr>"

definition step_b :: ToolChainStep where
  "step_b = \<lparr>toolName = ''b'', params = [(''x'', JNum 1)], step_metadata = None\<rparr>"

definition step_odd :: ToolChainStep where
  "step_odd = \<lparr>toolName = ''a:{}|a'', params = [], step_metadata = None\<rparr>"

text \<open>
  A manager with the \<open>echo\<close> tool registered, a collaborator that returns the
  \<open>msg\<close> parameter, and chains over steps with and without the required parameter
  and with and without metadata.
\<close>

definition echo_tool :: ChainableToolConfig where
  "echo_tool =
     \<lparr>name = ''echo'', tool_description = ''Echo the message'', inputSchema = echo_schema,
      chainable = True, requiresPrevious = None, metadataSchema = None\<rparr>"

definition echo_manager :: ToolChainManager where
  "echo_manager = registerTool echo_tool new_manager"

definition echo_invoke :: invoker where
  "echo_invoke tool ps ctx =
     (case map_of ps ''msg'' of Some v \<Rightarrow> Inr v | None \<Rightarrow> Inl NonError)"

definition chain_of :: "ToolChainStep list \<Rightarrow> ToolChain" where
  "chain_of sts =
     \<lparr>steps = sts, chain_context = \<lparr>previousResults = [], context_metadata = []\<rparr>\<rparr>"

definition hi_step :: ToolChainStep where
  "hi_step = \<lparr>toolName = ''echo'', params = [(''msg'', JStr ''hi'')], step_metadata = None\<rparr>"

definition tagged_step :: ToolChainStep where
  "tagged_step =
     \<lparr>toolName = ''echo'', params = [], step_metadata = Some [(''tag'', JStr ''x'')]\<rparr>"

definition tagged_hi_step :: ToolChainStep where
  "tagged_hi_step =
     \<lparr>toolName = ''echo'', params = [(''msg'', JStr ''hi'')],
      step_metadata = Some [(''tag'', JStr ''x'')]\<rparr>"

text \<open>
  A tool that requires previous results, a manager with both tools registered, and a
  step for that tool.
\<close>

definition summary_tool :: ChainableToolConfig where
  "summary_tool =
     \<lparr>name = ''summary'', tool_description = ''Summarise the previous results'',
      inputSchema = \<lparr>properties = [], required = None\<rparr>,
      chainable = True, requiresPrevious = Some True, metadataSchema = None\<rparr>"

definition summary_manager :: ToolChainManager where
  "summary_manager = registerTool summary_tool echo_manager"

definition summary_step :: ToolChainStep where
  "summary_step = \<lparr>toolName = ''summary'', params = [], step_metadata = None\<rparr>"

text \<open>The entry that a run of the chain without steps at instant \<open>t\<close> writes.\<close>

definition empty_entry :: "int \<Rightarrow> CacheEntry" where
  "empty_entry t = \<lparr>result = ''[]'', timestamp = t, ttl = 3600, metadata = None\<rparr>"

section \<open>\<open>JSON.parse\<close> reads back what \<open>JSON.stringify\<close> wrote\<close>

lemma digit_char_cases:
  assumes "(d::nat) < 16"
  shows "d \<in> {0, 1, 2, 3, 4, 5, 6, 7, 8, 9, 10, 11, 12, 13, 14, 15}"
  using assms by (simp add: insert_iff) arith

lemma hex_val_digit_char: "d < 16 \<Longrightarrow> hex_val (digit_char d) = Some d"
  by (drule digit_char_cases) (auto simp: hex_val_def digit_char_def)

lemma is_digit_digit_char: "d < 10 \<Longrightarrow> is_digit (digit_char d)"
  using digit_char_cases [of d] by (auto simp: is_digit_def digit_char_def)

lemma digit_val_digit_char: "d < 10 \<Longrightarrow> (of_char (digit_char d) :: nat) - 48 = d"
  using digit_char_cases [of d] by (auto simp: digit_char_def)

lemma digit_char_zero: "d < 10 \<Longrightarrow> digit_char d = CHR ''0'' \<longleftrightarrow> d = 0"
  using digit_char_cases [of d] by (auto simp: digit_char_def)

lemma show_nat_nonempty: "show_nat n \<noteq> []"
  by (subst show_nat.simps) simp

lemma show_nat_digits: "c \<in> set (show_nat n) \<Longrightarrow> is_digit c"
proof (induction n arbitrary: c rule: show_nat.induct)
  case (1 n)
  then show ?case
    by (subst (asm) (2) show_nat.simps) (auto simp: is_digit_digit_char split: if_splits)
qed

lemma digits_val_snoc: "digits_val (ds @ [c]) = digits_val ds * 10 + (of_char c - 48)"
  by (simp add: digits_val_def)

lemma digits_val_show_nat: "digits_val (show_nat n) = n"
proof (induction n rule: show_nat.induct)
  case (1 n)
  show ?case
  proof (cases "n < 10")
    case True
    then show ?thesis
      by (subst show_nat.simps) (simp add: digits_val_def digit_val_digit_char)
  next
    case False
    with 1 have "digits_val (show_nat (n div 10)) = n div 10" by simp
    with False show ?thesis
      by (subst show_nat.simps) (simp add: digits_val_snoc digit_val_digit_char)
  qed
qed

lemma show_nat_hd: "0 < n \<Longrightarrow> hd (show_nat n) \<noteq> CHR ''0''"
proof (induction n rule: show_nat.induct)
  case (1 n)
  show ?case
  proof (cases "n < 10")
    case True
    with 1(2) show ?thesis
      by (subst show_nat.simps) (simp add: digit_char_zero)
  next
    case False
    then have "0 < n div 10" by simp
    with 1(1) False have "hd (show_nat (n div 10)) \<noteq> CHR ''0''" by simp
    with False show ?thesis
      by (subst show_nat.simps) (simp add: show_nat_nonempty)
  qed
qed

lemma show_nat_no_leading_zero:
  "\<not> (1 < length (show_nat n) \<and> hd (show_nat n) = CHR ''0'')"
proof (cases "n = 0")
  case True
  then show ?thesis by (subst show_nat.simps) simp
next
  case False
  then show ?thesis using show_nat_hd [of n] by simp
qed


lemma takeWhile_digits:
  "ok_rest rest \<Longrightarrow> takeWhile is_digit (show_nat n @ rest) = show_nat n"
  by (cases rest) (auto simp: ok_rest_def takeWhile_append2 show_nat_digits)

lemma dropWhile_digits:
  "ok_rest rest \<Longrightarrow> dropWhile is_digit (show_nat n @ rest) = rest"
  by (cases rest) (auto simp: ok_rest_def dropWhile_append2 show_nat_digits)

lemma parse_nat_show_nat:
  "ok_rest rest \<Longrightarrow> parse_nat (show_nat n @ rest) = Some (n, rest)"
  using show_nat_no_leading_zero [of n]
  by (simp add: parse_nat_def takeWhile_digits dropWhile_digits show_nat_nonempty
      digits_val_show_nat Let_def)

lemma show_nat_hd_digit: "is_digit (hd (show_nat n))"
  using show_nat_digits [of "hd (show_nat n)" n] show_nat_nonempty [of n] by simp

lemma show_nat_Cons: "\<exists>c cs. show_nat n = c # cs \<and> is_digit c"
  using show_nat_hd_digit [of n] show_nat_nonempty [of n] by (cases "show_nat n") auto

lemma parse_number_show_int:
  "ok_rest rest \<Longrightarrow> parse_number (show_int i @ rest) = Some (JNum i, rest)"
proof -
  assume r: "ok_rest rest"
  obtain c cs where c: "show_nat (nat i) = c # cs" "is_digit c"
    using show_nat_Cons by blast
  show ?thesis
  proof (cases "i < 0")
    case True
    with r show ?thesis
      by (simp add: parse_number_def show_int_def parse_nat_show_nat)
  next
    case False
    have "c \<noteq> CHR ''-''" using c(2) by (auto simp: is_digit_def)
    moreover have "parse_nat (c # cs @ rest) = Some (nat i, rest)"
      using parse_nat_show_nat [OF r, of "nat i"] c(1) by simp
    ultimately show ?thesis using False c(1)
      by (simp add: parse_number_def show_int_def)
  qed
qed

lemma hex4_escape:
  "n < 256 \<Longrightarrow>
   hex4 (CHR ''0'') (CHR ''0'') (digit_char (n div 16)) (digit_char (n mod 16)) = Some n"
proof -
  assume "n < 256"
  then have "n div 16 < 16" "n mod 16 < 16" by auto
  then show ?thesis
    by (simp add: hex4_def hex_val_digit_char) (simp add: hex_val_def)
qed

lemma parse_chars_escape_char:
  "parse_chars t = Some (s, r) \<Longrightarrow> parse_chars (escape_char c @ t) = Some (c # s, r)"
proof -
  assume t: "parse_chars t = Some (s, r)"
  have lt: "(of_char c :: nat) < 256" by simp
  show ?thesis
    using t hex4_escape [OF lt]
    by (auto simp: escape_char_def unescape_def)
qed

lemma parse_chars_quote:
  "parse_chars (concat (map escape_char s) @ CHR 0x22 # rest) = Some (s, rest)"
  by (induction s) (simp_all add: parse_chars_escape_char)

lemma parse_value_quote:
  "parse_value (quote s @ rest) = Some (JStr s, rest)"
  by (simp add: quote_def parse_chars_quote)


lemma ok_rest_simps [simp]:
  "ok_rest []" "ok_rest (CHR '','' # r)" "ok_rest (CHR '']'' # r)" "ok_rest (CHR ''}'' # r)"
  "ok_rest (CHR ''|'' # r)"
  by (simp_all add: ok_rest_def is_digit_def)

lemma show_int_Cons: "\<exists>c cs. show_int i = c # cs \<and> (is_digit c \<or> c = CHR ''-'')"
  using show_nat_Cons [of "nat i"] by (auto simp: show_int_def)

lemma parse_value_number:
  "is_digit c \<or> c = CHR ''-'' \<Longrightarrow> parse_value (c # cs) = parse_number (c # cs)"
  by (auto simp: is_digit_def)

lemma parse_value_show_int:
  "ok_rest rest \<Longrightarrow> parse_value (show_int i @ rest) = Some (JNum i, rest)"
proof -
  assume r: "ok_rest rest"
  obtain c cs where c: "show_int i = c # cs" "is_digit c \<or> c = CHR ''-''"
    using show_int_Cons by blast
  have "parse_value (c # cs @ rest) = parse_number (c # cs @ rest)"
    using c(2) by (rule parse_value_number)
  then show ?thesis
    using parse_number_show_int [OF r, of i] c(1) by simp
qed

lemma quote_Cons: "quote s = CHR 0x22 # concat (map escape_char s) @ [CHR 0x22]"
  by (simp add: quote_def)

lemma stringify_Cons:
  "\<exists>c cs. JSON_stringify v = c # cs \<and> c \<noteq> CHR '']'' \<and> c \<noteq> CHR ''}''"
proof (cases v)
  case (JNum i)
  then show ?thesis using show_int_Cons [of i] by (auto simp: is_digit_def)
qed (auto simp: quote_def)

lemma parse_elems_join:
  assumes "vs \<noteq> []"
    and "\<And>x rest. x \<in> set vs \<Longrightarrow> ok_rest rest \<Longrightarrow>
           parse_value (JSON_stringify x @ rest) = Some (x, rest)"
  shows "parse_elems (join '','' (map JSON_stringify vs) @ CHR '']'' # rest) = Some (vs, rest)"
  using assms
proof (induction vs rule: list_nonempty_induct)
  case (single v)
  then show ?case
    by (subst parse_elems.simps) simp
next
  case (cons v vs)
  obtain w ws where vs: "vs = w # ws" using cons.hyps by (cases vs) auto
  have tail: "parse_elems (join '','' (map JSON_stringify vs) @ CHR '']'' # rest) = Some (vs, rest)"
    by (rule cons.IH) (simp add: cons.prems)
  have hd: "parse_value (JSON_stringify v @ CHR '','' # join '','' (map JSON_stringify vs) @ CHR '']'' # rest)
            = Some (v, CHR '','' # join '','' (map JSON_stringify vs) @ CHR '']'' # rest)"
    using cons.prems by simp
  show ?case
    using hd tail vs
    by (subst parse_elems.simps) simp
qed

lemma parse_members_join:
  assumes "kvs \<noteq> []"
    and "\<And>k x rest. (k, x) \<in> set kvs \<Longrightarrow> ok_rest rest \<Longrightarrow>
           parse_value (JSON_stringify x @ rest) = Some (x, rest)"
  shows "parse_members
           (join '','' (map (\<lambda>(k, v). quote k @ '':'' @ JSON_stringify v) kvs) @ CHR ''}'' # rest)
         = Some (kvs, rest)"
  using assms
proof (induction kvs rule: list_nonempty_induct)
  case (single kv)
  obtain k v where kv: "kv = (k, v)" by (cases kv)
  have "(k, v) \<in> set [kv]" using kv by simp
  then have "parse_value (JSON_stringify v @ CHR ''}'' # rest) = Some (v, CHR ''}'' # rest)"
    by (rule single) simp
  then show ?case
    using kv by (subst parse_members.simps) (simp add: quote_Cons parse_chars_quote)
next
  case (cons kv kvs)
  obtain k v where kv: "kv = (k, v)" by (cases kv)
  obtain w ws where kvs: "kvs = w # ws" using cons.hyps by (cases kvs) auto
  let ?tl = "join '','' (map (\<lambda>(k, v). quote k @ '':'' @ JSON_stringify v) kvs) @ CHR ''}'' # rest"
  have tail: "parse_members ?tl = Some (kvs, rest)"
  proof (rule cons.IH)
    fix k x r
    assume "(k, x) \<in> set kvs" and r: "ok_rest r"
    then have "(k, x) \<in> set (kv # kvs)" by simp
    then show "parse_value (JSON_stringify x @ r) = Some (x, r)"
      using r by (rule cons.prems)
  qed
  have "(k, v) \<in> set (kv # kvs)" using kv by simp
  then have hd: "parse_value (JSON_stringify v @ CHR '','' # ?tl) = Some (v, CHR '','' # ?tl)"
    by (rule cons.prems) simp
  show ?case
    using hd tail kvs kv
    by (subst parse_members.simps) (simp add: quote_Cons parse_chars_quote)
qed

lemma parse_value_stringify:
  "ok_rest rest \<Longrightarrow> parse_value (JSON_stringify v @ rest) = Some (v, rest)"
proof (induction v arbitrary: rest rule: JSON_stringify.induct)
  case 1
  then show ?case by simp
next
  case (2 b)
  then show ?case by simp
next
  case (3 n)
  then show ?case by (simp add: parse_value_show_int)
next
  case (4 s)
  then show ?case by (simp add: parse_value_quote)
next
  case (5 vs)
  show ?case
  proof (cases vs)
    case Nil
    then show ?thesis by simp
  next
    case (Cons v ws)
    obtain c cs where c: "JSON_stringify v = c # cs" "c \<noteq> CHR '']''"
      using stringify_Cons by blast
    have "parse_elems (join '','' (map JSON_stringify vs) @ CHR '']'' # rest) = Some (vs, rest)"
      using Cons 5 by (intro parse_elems_join) auto
    moreover have "hd (join '','' (map JSON_stringify vs) @ CHR '']'' # rest) \<noteq> CHR '']''"
      using Cons c by (cases ws) auto
    moreover have "join '','' (map JSON_stringify vs) @ CHR '']'' # rest \<noteq> []" by simp
    ultimately show ?thesis by simp
  qed
next
  case (6 kvs)
  show ?case
  proof (cases kvs)
    case Nil
    then show ?thesis by simp
  next
    case (Cons kv ws)
    let ?body = "join '','' (map (\<lambda>(k, v). quote k @ '':'' @ JSON_stringify v) kvs) @ CHR ''}'' # rest"
    have "parse_members ?body = Some (kvs, rest)"
      using Cons 6 by (intro parse_members_join) auto
    moreover have "hd ?body \<noteq> CHR ''}''"
      using Cons by (cases ws; cases kv) (auto simp: quote_Cons)
    moreover have "?body \<noteq> []" by simp
    ultimately show ?thesis by simp
  qed
qed

lemma JSON_parse_stringify: "JSON_parse (JSON_stringify v) = Some v"
  using parse_value_stringify [of "[]" v] by (simp add: JSON_parse_def)

section \<open>The parser consumes its input\<close>

lemma parse_chars_shorter_aux:
  "length s \<le> n \<Longrightarrow> parse_chars s = Some (k, r) \<Longrightarrow> length r < length s"
proof (induction n arbitrary: s k)
  case 0
  then show ?case by simp
next
  case (Suc n)
  show ?case
  proof (cases s)
    case Nil
    with Suc.prems show ?thesis by simp
  next
    case (Cons c cs)
    have IH: "length r < length u" if "length u \<le> n" "parse_chars u = Some (k', r)" for u k'
      using Suc.IH that by blast
    have len: "length cs \<le> n" using Suc.prems(1) Cons by simp
    consider (quote) "c = CHR 0x22"
      | (esc) "c \<noteq> CHR 0x22" "c = CHR 0x5C"
      | (plain) "c \<noteq> CHR 0x22" "c \<noteq> CHR 0x5C" by blast
    then show ?thesis
    proof cases
      case quote
      with Suc.prems(2) Cons show ?thesis by simp
    next
      case plain
      with Suc.prems(2) Cons obtain k' where "parse_chars cs = Some (k', r)"
        by (auto split: if_splits option.splits)
      from IH [OF len this] Cons show ?thesis by simp
    next
      case esc
      with Suc.prems(2) Cons obtain e r0 where cs: "cs = e # r0"
        by (cases cs) auto
      show ?thesis
      proof (cases "e = CHR ''u''")
        case False
        with Suc.prems(2) Cons esc cs obtain k' where "parse_chars r0 = Some (k', r)"
          by (auto split: option.splits)
        moreover have "length r0 \<le> n" using len cs by simp
        ultimately have "length r < length r0" by (rule IH [rotated])
        with Cons cs show ?thesis by simp
      next
        case True
        with Suc.prems(2) Cons esc cs obtain h1 h2 h3 h4 r' k'
          where r0: "r0 = h1 # h2 # h3 # h4 # r'" and p: "parse_chars r' = Some (k', r)"
          by (auto split: list.splits option.splits if_splits)
        have "length r' \<le> n" using len cs r0 by simp
        from IH [OF this p] Cons cs r0 show ?thesis by simp
      qed
    qed
  qed
qed

lemma parse_chars_shorter: "parse_chars s = Some (k, r) \<Longrightarrow> length r < length s"
  using parse_chars_shorter_aux [of s "length s"] by simp

lemma parse_nat_shorter: "parse_nat s = Some (n, r) \<Longrightarrow> length r < length s"
proof -
  assume a: "parse_nat s = Some (n, r)"
  then have "takeWhile is_digit s \<noteq> []" "r = dropWhile is_digit s"
    by (auto simp: parse_nat_def Let_def split: if_splits)
  moreover have "length (takeWhile is_digit s) + length (dropWhile is_digit s) = length s"
    by (metis length_append takeWhile_dropWhile_id)
  ultimately show ?thesis by (cases "takeWhile is_digit s") auto
qed

lemma parse_number_shorter:
  assumes "parse_number s = Some (v, r)"
  shows "length r < length s"
proof (cases s)
  case Nil
  with assms show ?thesis by (simp add: parse_number_def)
next
  case (Cons c cs)
  show ?thesis
  proof (cases "c = CHR ''-''")
    case True
    with assms Cons obtain n where "parse_nat cs = Some (n, r)"
      by (auto simp: parse_number_def split: option.splits)
    from parse_nat_shorter [OF this] Cons show ?thesis by simp
  next
    case False
    with assms Cons obtain n where "parse_nat s = Some (n, r)"
      by (auto simp: parse_number_def split: option.splits)
    then show ?thesis by (rule parse_nat_shorter)
  qed
qed

lemma parse_value_step:
  assumes el: "\<And>vs r. parse_elems cs = Some (vs, r) \<Longrightarrow> length r < length cs"
    and me: "\<And>kvs r. parse_members cs = Some (kvs, r) \<Longrightarrow> length r < length cs"
    and p: "parse_value (c # cs) = Some (v, r)"
  shows "length r < length (c # cs)"
proof -
  consider (lit) "c = CHR ''n'' \<or> c = CHR ''t'' \<or> c = CHR ''f''"
    | (str) "c = CHR 0x22"
    | (arr) "c = CHR ''[''"
    | (obj) "c = CHR ''{''"
    | (num) "c \<noteq> CHR ''n''" "c \<noteq> CHR ''t''" "c \<noteq> CHR ''f''" "c \<noteq> CHR 0x22"
        "c \<noteq> CHR ''[''" "c \<noteq> CHR ''{''"
    by blast
  then show ?thesis
  proof cases
    case lit
    with p show ?thesis by (auto split: if_splits)
  next
    case str
    with p obtain k where "parse_chars cs = Some (k, r)" by (auto split: option.splits)
    from parse_chars_shorter [OF this] show ?thesis by simp
  next
    case arr
    show ?thesis
    proof (cases "cs \<noteq> [] \<and> hd cs = CHR '']''")
      case True
      with p arr have "r = tl cs" by simp
      with True show ?thesis by (cases cs) auto
    next
      case False
      with p arr obtain vs where "parse_elems cs = Some (vs, r)"
        by (auto split: option.splits)
      from el [OF this] show ?thesis by simp
    qed
  next
    case obj
    show ?thesis
    proof (cases "cs \<noteq> [] \<and> hd cs = CHR ''}''")
      case True
      with p obj have "r = tl cs" by simp
      with True show ?thesis by (cases cs) auto
    next
      case False
      with p obj obtain kvs where "parse_members cs = Some (kvs, r)"
        by (auto split: option.splits)
      from me [OF this] show ?thesis by simp
    qed
  next
    case num
    with p have "parse_number (c # cs) = Some (v, r)" by simp
    then show ?thesis by (rule parse_number_shorter)
  qed
qed

lemma parse_elems_step:
  assumes va: "\<And>v r. parse_value s = Some (v, r) \<Longrightarrow> length r < length s"
    and el: "\<And>t vs r. length t < length s \<Longrightarrow> parse_elems t = Some (vs, r) \<Longrightarrow> length r < length t"
    and p: "parse_elems s = Some (vs, r)"
  shows "length r < length s"
proof -
  from p obtain v d r' where v: "parse_value s = Some (v, d # r')"
    by (subst (asm) parse_elems.simps) (auto split: option.splits list.splits)
  have l: "length (d # r') < length s" using va [OF v] .
  show ?thesis
  proof (cases "d = CHR '']''")
    case True
    with p v have "r = r'" by (subst (asm) parse_elems.simps) simp
    with l show ?thesis by simp
  next
    case False
    with p v obtain ws where "parse_elems r' = Some (ws, r)" "length r' < length s"
      by (subst (asm) parse_elems.simps) (auto split: option.splits if_splits)
    with el [of r' ws r] show ?thesis by simp
  qed
qed

lemma parse_members_step:
  assumes va: "\<And>t v r. length t < length s \<Longrightarrow> parse_value t = Some (v, r) \<Longrightarrow> length r < length t"
    and me: "\<And>t kvs r. length t < length s \<Longrightarrow> parse_members t = Some (kvs, r) \<Longrightarrow> length r < length t"
    and p: "parse_members s = Some (kvs, r)"
  shows "length r < length s"
proof -
  from p obtain s1 k s3 v d r' where s: "s = CHR 0x22 # s1"
    and k: "parse_chars s1 = Some (k, CHR '':'' # s3)" and l3: "length s3 < length s"
    and v: "parse_value s3 = Some (v, d # r')"
    by (subst (asm) parse_members.simps) (auto split: option.splits list.splits if_splits)
  have l: "length (d # r') < length s3" using va [OF l3 v] .
  show ?thesis
  proof (cases "d = CHR ''}''")
    case True
    with p s k l3 v have "r = r'" by (subst (asm) parse_members.simps) simp
    with l l3 show ?thesis by simp
  next
    case False
    with p s k l3 v obtain ws where "parse_members r' = Some (ws, r)" "length r' < length s"
      by (subst (asm) parse_members.simps) (auto split: option.splits if_splits)
    with me [of r' ws r] show ?thesis by simp
  qed
qed

lemma parse_shorter_aux:
  "length s \<le> n \<Longrightarrow>
     (\<forall>v r. parse_value s = Some (v, r) \<longrightarrow> length r < length s)
     \<and> (\<forall>vs r. parse_elems s = Some (vs, r) \<longrightarrow> length r < length s)
     \<and> (\<forall>kvs r. parse_members s = Some (kvs, r) \<longrightarrow> length r < length s)"
proof (induction n arbitrary: s rule: less_induct)
  case (less n)
  have IH: "(\<forall>v r. parse_value t = Some (v, r) \<longrightarrow> length r < length t)
     \<and> (\<forall>vs r. parse_elems t = Some (vs, r) \<longrightarrow> length r < length t)
     \<and> (\<forall>kvs r. parse_members t = Some (kvs, r) \<longrightarrow> length r < length t)"
    if "length t < length s" for t
    using less.IH [of "length t" t] less.prems that by simp
  have va: "length r < length s" if "parse_value s = Some (v, r)" for v r
  proof (cases s)
    case Nil
    with that show ?thesis by simp
  next
    case (Cons c cs)
    have "length r < length (c # cs)"
    proof (rule parse_value_step)
      show "parse_value (c # cs) = Some (v, r)" using that Cons by simp
      show "length r' < length cs" if "parse_elems cs = Some (vs, r')" for vs r'
        using IH [of cs] Cons that by simp
      show "length r' < length cs" if "parse_members cs = Some (kvs, r')" for kvs r'
        using IH [of cs] Cons that by simp
    qed
    with Cons show ?thesis by simp
  qed
  have el: "length r < length s" if "parse_elems s = Some (vs, r)" for vs r
    using _ _ that
  proof (rule parse_elems_step)
    show "length r' < length s" if "parse_value s = Some (v, r')" for v r'
      using va that .
    show "length r' < length t" if "length t < length s" "parse_elems t = Some (ws, r')" for t ws r'
      using IH [OF that(1)] that(2) by simp
  qed
  have me: "length r < length s" if "parse_members s = Some (kvs, r)" for kvs r
    using _ _ that
  proof (rule parse_members_step)
    show "length r' < length t" if "length t < length s" "parse_value t = Some (v, r')" for t v r'
      using IH [OF that(1)] that(2) by simp
    show "length r' < length t" if "length t < length s" "parse_members t = Some (ws, r')" for t ws r'
      using IH [OF that(1)] that(2) by simp
  qed
  from va el me show ?case by blast
qed

lemma parse_value_shorter: "parse_value s = Some (v, r) \<Longrightarrow> length r < length s"
  using parse_shorter_aux [of s "length s"] by simp

text \<open>So the comparisons of lengths in the parser always hold where they are evaluated.\<close>

lemma parse_elems_unguarded:
  "parse_elems s =
     (case parse_value s of
        None \<Rightarrow> None
      | Some (v, r) \<Rightarrow>
          (case r of
             [] \<Rightarrow> None
           | d # r' \<Rightarrow>
               if d = CHR '']'' then Some ([v], r')
               else if d = CHR '','' then
                 (case parse_elems r' of
                    None \<Rightarrow> None
                  | Some (vs, r'') \<Rightarrow> Some (v # vs, r''))
               else None))"
proof (cases "parse_value s")
  case None
  then show ?thesis by (subst parse_elems.simps) simp
next
  case (Some a)
  obtain v r where a: "a = (v, r)" by (cases a)
  show ?thesis
  proof (cases r)
    case Nil
    with Some a show ?thesis by (subst parse_elems.simps) simp
  next
    case (Cons d r')
    have "length r' < length s"
      using parse_value_shorter [of s v r] Some a Cons by simp
    with Some a Cons show ?thesis by (subst parse_elems.simps) simp
  qed
qed

lemma parse_members_unguarded:
  "parse_members s =
     (case s of
        [] \<Rightarrow> None
      | q # s1 \<Rightarrow>
          if q \<noteq> CHR 0x22 then None
          else
            (case parse_chars s1 of
               None \<Rightarrow> None
             | Some (k, s2) \<Rightarrow>
                 (case s2 of
                    [] \<Rightarrow> None
                  | col # s3 \<Rightarrow>
                      if col \<noteq> CHR '':'' then None
                      else
                        (case parse_value s3 of
                           None \<Rightarrow> None
                         | Some (v, r) \<Rightarrow>
                             (case r of
                                [] \<Rightarrow> None
                              | d # r' \<Rightarrow>
                                  if d = CHR ''}'' then Some ([(k, v)], r')
                                  else if d = CHR '','' then
                                    (case parse_members r' of
                                       None \<Rightarrow> None
                                     | Some (kvs, r'') \<Rightarrow> Some ((k, v) # kvs, r''))
                                  else None)))))"
proof (cases s)
  case Nil
  then show ?thesis by (subst parse_members.simps) simp
next
  case (Cons q s1)
  show ?thesis
  proof (cases "parse_chars s1")
    case None
    with Cons show ?thesis by (subst parse_members.simps) simp
  next
    case (Some a)
    obtain k s2 where a: "a = (k, s2)" by (cases a)
    show ?thesis
    proof (cases s2)
      case Nil
      with Cons Some a show ?thesis by (subst parse_members.simps) simp
    next
      case c2: (Cons col s3)
      have l3: "length s3 < length s"
        using parse_chars_shorter [of s1 k s2] Some a c2 Cons by simp
      show ?thesis
      proof (cases "parse_value s3")
        case None
        with Cons Some a c2 l3 show ?thesis by (subst parse_members.simps) simp
      next
        case v: (Some b)
        obtain v r where b: "b = (v, r)" by (cases b)
        show ?thesis
        proof (cases r)
          case Nil
          with Cons Some a c2 l3 v b show ?thesis by (subst parse_members.simps) simp
        next
          case r: (Cons d r')
          have "length r' < length s"
            using parse_value_shorter [of s3 v r] v b r l3 by simp
          with Cons Some a c2 l3 v b r show ?thesis by (subst parse_members.simps) simp
        qed
      qed
    qed
  qed
qed

text \<open>From here on the serialiser is used through the lemmas above.\<close>

declare JSON_stringify.simps [simp del]

section \<open>Properties of the cache\<close>

lemma cache_get_absent: "st key = None \<Longrightarrow> cache_get now key st = (None, st)"
  by (simp add: cache_get_def)

lemma cache_get_expired:
  "st key = Some e \<Longrightarrow> expired now e \<Longrightarrow> cache_get now key st = (None, st(key := None))"
  by (simp add: cache_get_def)

lemma cache_get_live:
  "st key = Some e \<Longrightarrow> \<not> expired now e \<Longrightarrow> cache_get now key st = (Some (result e), st)"
  by (simp add: cache_get_def)

text \<open>
  Claim C8. \<open>get\<close> returns a payload exactly when the key has an entry that is not
  expired, and then it is that entry's payload; an entry is expired when
  \<open>now - timestamp > ttl * 1000\<close> (milliseconds against seconds). On an expired entry
  \<open>get\<close> returns absent and removes the entry, after which \<open>has\<close> answers false
  at any later instant.
\<close>

theorem cache_get_exact:
  "(fst (cache_get now key st) = Some p \<longleftrightarrow>
      (\<exists>e. st key = Some e \<and> \<not> now - timestamp e > ttl e * 1000 \<and> result e = p))
   \<and> (\<forall>e. st key = Some e \<and> now - timestamp e > ttl e * 1000 \<longrightarrow>
         cache_get now key st = (None, st(key := None))
         \<and> fst (cache_has later key (snd (cache_get now key st))) = False)"
  by (auto simp: cache_get_def cache_has_def expired_def split: option.splits)

theorem cache_get_exact_witness:
  "(fst (cache_get 5001 ''k'' [''k'' \<mapsto> \<lparr>result = ''v'', timestamp = 0, ttl = 5, metadata = None\<rparr>])
      = Some ''v'' \<longleftrightarrow> False)
   \<and> cache_get 5001 ''k'' [''k'' \<mapsto> \<lparr>result = ''v'', timestamp = 0, ttl = 5, metadata = None\<rparr>]
       = (None, Map.empty)
   \<and> fst (cache_has 5002 ''k''
        (snd (cache_get 5001 ''k''
           [''k'' \<mapsto> \<lparr>result = ''v'', timestamp = 0, ttl = 5, metadata = None\<rparr>]))) = False
   \<and> fst (cache_get 5000 ''k'' [''k'' \<mapsto> \<lparr>result = ''v'', timestamp = 0, ttl = 5, metadata = None\<rparr>])
       = Some ''v''"
  using cache_get_exact [of 5001 "''k''"
      "[''k'' \<mapsto> \<lparr>result = ''v'', timestamp = 0, ttl = 5, metadata = None\<rparr>]" "''v''" 5002]
    cache_get_exact [of 5000 "''k''"
      "[''k'' \<mapsto> \<lparr>result = ''v'', timestamp = 0, ttl = 5, metadata = None\<rparr>]" "''v''" 5002]
  by (simp add: cache_get_def cache_has_def expired_def)

text \<open>
  Claim C9. \<open>getMetadata\<close> reads the metadata of whatever entry the store holds,
  with no expiry check, and leaves the store as it is: on an entry whose TTL has elapsed
  and that is still in the store it returns the entry's metadata, while \<open>get\<close> at the
  same instant returns absent.
\<close>

theorem getMetadata_ignores_expiry:
  "snd (getMetadata key st) = st
   \<and> (\<forall>e. st key = Some e \<longrightarrow> fst (getMetadata key st) = metadata e)
   \<and> (\<forall>e. st key = Some e \<and> now - timestamp e > ttl e * 1000 \<longrightarrow>
         fst (getMetadata key st) = metadata e \<and> fst (cache_get now key st) = None)"
  by (auto simp: getMetadata_def cache_get_def expired_def split: option.splits)

theorem getMetadata_ignores_expiry_witness:
  "getMetadata ''k''
      [''k'' \<mapsto> \<lparr>result = ''v'', timestamp = 0, ttl = 5, metadata = Some [(''tag'', JNum 1)]\<rparr>]
     = (Some [(''tag'', JNum 1)],
        [''k'' \<mapsto> \<lparr>result = ''v'', timestamp = 0, ttl = 5, metadata = Some [(''tag'', JNum 1)]\<rparr>])
   \<and> fst (cache_get 9000 ''k''
        [''k'' \<mapsto> \<lparr>result = ''v'', timestamp = 0, ttl = 5, metadata = Some [(''tag'', JNum 1)]\<rparr>])
     = None"
  using getMetadata_ignores_expiry [of "''k''"
      "[''k'' \<mapsto> \<lparr>result = ''v'', timestamp = 0, ttl = 5, metadata = Some [(''tag'', JNum 1)]\<rparr>]"
      9000]
  by (simp add: prod_eq_iff getMetadata_def cache_get_def expired_def)

section \<open>Properties of the validator\<close>

lemma validate_entries_ok:
  "validate_entries ps schema entries = Inr () \<longleftrightarrow>
     (\<forall>(key, value) \<in> set entries.
        (is_required schema key \<longrightarrow> has_key key ps)
        \<and> (has_key key ps \<and> type value \<noteq> [] \<longrightarrow>
             typeof_member key ps = type value))"
  by (induction entries) (auto split: if_splits)

lemma validate_entries_error:
  "validate_entries ps schema entries = Inl msg \<Longrightarrow>
     \<exists>key value. (key, value) \<in> set entries
       \<and> (is_required schema key \<and> \<not> has_key key ps \<and> msg = missing_msg key
          \<or> has_key key ps \<and> type value \<noteq> []
             \<and> typeof_member key ps \<noteq> type value
             \<and> msg = invalid_msg key (type value) (typeof_member key ps))"
proof (induction entries)
  case Nil
  then show ?case by simp
next
  case (Cons e entries)
  obtain key pv where e: "e = (key, pv)" by (cases e)
  show ?case
  proof (cases "validate_entries ps schema entries = Inl msg")
    case True
    with Cons.IH show ?thesis by auto
  next
    case False
    with Cons.prems e show ?thesis
      by (auto split: if_splits)
  qed
qed

lemma validate_entries_declared_only:
  "\<forall>key \<in> fst ` set entries. map_of ps key = map_of ps' key \<Longrightarrow>
   validate_entries ps schema entries = validate_entries ps' schema entries"
  by (induction entries) (auto simp: has_key_def typeof_member_def)

text \<open>
  Claim C7, as amended. Validation succeeds exactly when every declared property that is
  required is in the parameters and every declared property that is in the parameters and
  whose declared type tag is not empty has that tag as its \<open>typeof\<close>. A property is
  in the parameters as \<open>key in params\<close> tests it: as an own property or as a member
  inherited from \<open>Object.prototype\<close>. A failure is the
  "Missing required parameter" error naming a required key that is not in the parameters,
  or the "Invalid type for parameter" error of a key that is in them with another tag.
  Properties of the parameters that the schema does not declare are never looked at.
\<close>

theorem validateParams_guarded:
  "(validateParams ps schema = Inr () \<longleftrightarrow>
      (\<forall>(key, value) \<in> set (properties schema).
         (is_required schema key \<longrightarrow> has_key key ps)
         \<and> (has_key key ps \<and> type value \<noteq> [] \<longrightarrow>
              typeof_member key ps = type value)))
   \<and> (\<forall>msg. validateParams ps schema = Inl msg \<longrightarrow>
         (\<exists>key value. (key, value) \<in> set (properties schema)
            \<and> (is_required schema key \<and> \<not> has_key key ps \<and> msg = missing_msg key
               \<or> has_key key ps \<and> type value \<noteq> []
                  \<and> typeof_member key ps \<noteq> type value
                  \<and> msg = invalid_msg key (type value) (typeof_member key ps))))
   \<and> ((\<forall>key \<in> fst ` set (properties schema). map_of ps key = map_of ps' key) \<longrightarrow>
         validateParams ps schema = validateParams ps' schema)"
  unfolding validateParams_def
  using validate_entries_ok [of ps schema "properties schema"]
    validate_entries_error [of ps schema "properties schema"]
    validate_entries_declared_only [of "properties schema" ps ps' schema]
  by blast

theorem validateParams_guarded_witness:
  "validateParams [(''msg'', JStr ''hi''), (''extra'', JNum 1)] echo_schema = Inr ()
   \<and> validateParams [] echo_schema = Inl ''Missing required parameter: msg''
   \<and> validateParams [(''msg'', JNum 1)] echo_schema
       = Inl ''Invalid type for parameter msg: expected string, got number''
   \<and> validateParams [(''msg'', JStr ''hi''), (''extra'', JNum 1)] echo_schema
       = validateParams [(''msg'', JStr ''hi'')] echo_schema
   \<and> validateParams [] constructor_schema = Inr ()
   \<and> validateParams [] toString_schema
       = Inl ''Invalid type for parameter toString: expected string, got function''"
  using validateParams_guarded [of "[(''msg'', JStr ''hi''), (''extra'', JNum 1)]" echo_schema
      "[(''msg'', JStr ''hi'')]"]
    validateParams_guarded [of "[]" echo_schema "[]"]
    validateParams_guarded [of "[(''msg'', JNum 1)]" echo_schema "[]"]
    validateParams_guarded [of "[]" constructor_schema "[]"]
    validateParams_guarded [of "[]" toString_schema "[]"]
  by (simp add: echo_schema_def constructor_schema_def toString_schema_def validateParams_def
      is_required_def has_key_def object_prototype_keys_def typeof_member_def missing_msg_def
      invalid_msg_def)

text \<open>
  The claim as stated fails on a property declared with an empty type tag: the parameter
  is present, its tag differs from the declared one, and validation succeeds.
\<close>

theorem validateParams_untyped_counterexample:
  "validateParams [(''x'', JNum 1)]
     \<lparr>properties = [(''x'', \<lparr>type = [], description = None\<rparr>)], required = None\<rparr> = Inr ()
   \<and> has_key ''x'' [(''x'', JNum 1)]
   \<and> typeof_member ''x'' [(''x'', JNum 1)] \<noteq> type \<lparr>type = [], description = None\<rparr>"
  by (simp add: validateParams_def is_required_def has_key_def object_prototype_keys_def
      typeof_member_def)

section \<open>Properties of the chain key\<close>

lemma generateChainKey_rendered:
  "generateChainKey sts = join ''|'' (map (\<lambda>(t, p). t @ '':'' @ p) (map rendered sts))"
  by (simp add: generateChainKey_def rendered_def comp_def)

lemma join_Cons:
  "join sep (x # xs) = x @ (if xs = [] then [] else sep @ join sep xs)"
  by (cases xs) simp_all

lemma generateChainKey_Cons:
  "generateChainKey (s # sts) =
     toolName s @ CHR '':'' # JSON_stringify (JObj (params s))
       @ (if sts = [] then [] else CHR ''|'' # generateChainKey sts)"
  by (simp add: generateChainKey_def join_Cons)

lemma generateChainKey_Nil: "generateChainKey [] = []"
  by (simp add: generateChainKey_def)

lemma generateChainKey_empty_iff: "generateChainKey sts = [] \<longleftrightarrow> sts = []"
  by (cases sts) (simp_all add: generateChainKey_Nil generateChainKey_Cons)

lemma stringify_append_inj:
  assumes "JSON_stringify v @ r = JSON_stringify w @ t" and "ok_rest r" and "ok_rest t"
  shows "v = w \<and> r = t"
proof -
  have "Some (v, r) = parse_value (JSON_stringify v @ r)"
    using assms(2) by (simp only: parse_value_stringify)
  also have "\<dots> = parse_value (JSON_stringify w @ t)"
    by (simp only: assms(1))
  also have "\<dots> = Some (w, t)"
    using assms(3) by (simp only: parse_value_stringify)
  finally show ?thesis by simp
qed

lemma ok_rest_key_tail: "ok_rest (key_tail sts)"
  by (simp add: key_tail_def)

lemma generateChainKey_Cons_tail:
  "generateChainKey (s # sts) =
     toolName s @ CHR '':'' # (JSON_stringify (JObj (params s)) @ key_tail sts)"
  by (simp only: generateChainKey_Cons key_tail_def append_Cons append_assoc)

lemma key_tail_eq: "key_tail a = key_tail b \<Longrightarrow> generateChainKey a = generateChainKey b"
  by (cases "a = []"; cases "b = []") (simp_all add: key_tail_def generateChainKey_Nil)

lemma split_at_colon:
  "c \<notin> set xs \<Longrightarrow> c \<notin> set ys \<Longrightarrow> xs @ c # u = ys @ c # w \<Longrightarrow> xs = ys \<and> u = w"
proof (induction xs arbitrary: ys)
  case Nil
  show ?case
  proof (cases ys)
    case Nil
    with Nil.prems show ?thesis by simp
  next
    case (Cons y ys')
    with Nil.prems show ?thesis by simp
  qed
next
  case (Cons x xs)
  show ?case
  proof (cases ys)
    case Nil
    with Cons.prems show ?thesis by simp
  next
    case (Cons y ys')
    with Cons.prems have "x = y" "xs @ c # u = ys' @ c # w" "c \<notin> set xs" "c \<notin> set ys'"
      by simp_all
    with Cons.IH [of ys'] Cons show ?thesis by simp
  qed
qed

lemma generateChainKey_inj:
  "\<forall>s \<in> set a \<union> set b. CHR '':'' \<notin> set (toolName s) \<Longrightarrow>
   generateChainKey a = generateChainKey b \<Longrightarrow>
   map (\<lambda>s. (toolName s, params s)) a = map (\<lambda>s. (toolName s, params s)) b"
proof (induction a arbitrary: b)
  case Nil
  then show ?case
    using generateChainKey_empty_iff [of b] by (simp add: generateChainKey_Nil)
next
  case (Cons s a)
  show ?case
  proof (cases b)
    case Nil
    with Cons.prems(2) show ?thesis
      using generateChainKey_empty_iff [of "s # a"] by (simp add: generateChainKey_Nil)
  next
    case (Cons t b')
    have c: "CHR '':'' \<notin> set (toolName s)" "CHR '':'' \<notin> set (toolName t)"
      using Cons.prems(1) Cons by auto
    have eq: "toolName s @ CHR '':'' # (JSON_stringify (JObj (params s)) @ key_tail a)
            = toolName t @ CHR '':'' # (JSON_stringify (JObj (params t)) @ key_tail b')"
      using Cons.prems(2) Cons by (simp only: generateChainKey_Cons_tail)
    from eq have nr: "toolName s = toolName t
        \<and> JSON_stringify (JObj (params s)) @ key_tail a
          = JSON_stringify (JObj (params t)) @ key_tail b'"
      using split_at_colon [OF c] by blast
    then have n: "toolName s = toolName t"
      and r: "JSON_stringify (JObj (params s)) @ key_tail a
            = JSON_stringify (JObj (params t)) @ key_tail b'"
      by blast+
    from stringify_append_inj [OF r ok_rest_key_tail ok_rest_key_tail]
    have p: "params s = params t" and tl: "key_tail a = key_tail b'" by simp_all
    have "generateChainKey a = generateChainKey b'"
      using tl by (rule key_tail_eq)
    moreover have "\<forall>s \<in> set a \<union> set b'. CHR '':'' \<notin> set (toolName s)"
      using Cons.prems(1) Cons by auto
    ultimately have "map (\<lambda>s. (toolName s, params s)) a = map (\<lambda>s. (toolName s, params s)) b'"
      using Cons.IH by blast
    with n p Cons show ?thesis by simp
  qed
qed

text \<open>
  Claim C6, as amended. The chain key is a function of the sequence of
  (tool name, serialised parameters) pairs: equal sequences give equal keys. When no tool
  name contains a colon, different sequences give different keys.
\<close>

theorem generateChainKey_ordered_pairs:
  "(map rendered a = map rendered b \<longrightarrow> generateChainKey a = generateChainKey b)
   \<and> ((\<forall>s \<in> set a \<union> set b. CHR '':'' \<notin> set (toolName s))
        \<and> map rendered a \<noteq> map rendered b \<longrightarrow> generateChainKey a \<noteq> generateChainKey b)"
proof (intro conjI impI)
  assume "map rendered a = map rendered b"
  then show "generateChainKey a = generateChainKey b"
    by (simp add: generateChainKey_rendered)
next
  assume h: "(\<forall>s \<in> set a \<union> set b. CHR '':'' \<notin> set (toolName s)) \<and> map rendered a \<noteq> map rendered b"
  show "generateChainKey a \<noteq> generateChainKey b"
  proof
    assume "generateChainKey a = generateChainKey b"
    with h have m: "map (\<lambda>s. (toolName s, params s)) a = map (\<lambda>s. (toolName s, params s)) b"
      using generateChainKey_inj by blast
    have "map rendered a = map (\<lambda>(t, p). (t, JSON_stringify (JObj p))) (map (\<lambda>s. (toolName s, params s)) a)"
      by (simp add: rendered_def comp_def)
    also have "\<dots> = map (\<lambda>(t, p). (t, JSON_stringify (JObj p))) (map (\<lambda>s. (toolName s, params s)) b)"
      using m by simp
    also have "\<dots> = map rendered b"
      by (simp add: rendered_def comp_def)
    finally show False using h by simp
  qed
qed

lemma show_int_1 [simp]: "show_int 1 = ''1''"
  by (simp add: show_int_def show_nat.simps digit_char_def)

theorem generateChainKey_ordered_pairs_witness:
  "generateChainKey [step_a, step_b] = ''a:{}|b:{'' @ [CHR 0x22] @ ''x'' @ [CHR 0x22] @ '':1}''
   \<and> generateChainKey [step_a, step_b] \<noteq> generateChainKey [step_b, step_a]"
  using generateChainKey_ordered_pairs [of "[step_a, step_b]" "[step_a, step_b]"]
    generateChainKey_ordered_pairs [of "[step_a, step_b]" "[step_b, step_a]"]
  by (simp add: step_a_def step_b_def rendered_def generateChainKey_def quote_def escape_char_def
      JSON_stringify.simps)

text \<open>
  The claim as stated fails when a tool name contains the separators: the two orders of
  \<open>step_a\<close> and \<open>step_odd\<close> are different sequences with the same key
  \<open>a:{}|a:{}|a:{}\<close>.
\<close>

theorem generateChainKey_order_counterexample:
  "map rendered [step_a, step_odd] \<noteq> map rendered [step_odd, step_a]
   \<and> generateChainKey [step_a, step_odd] = generateChainKey [step_odd, step_a]"
  by (simp add: step_a_def step_odd_def rendered_def generateChainKey_def JSON_stringify.simps)

section \<open>What the store of a reachable manager holds\<close>


lemma executeStep_cases:
  assumes "executeStep invoke now tls step ctx st = (out, st', cs)"
  obtains
    (throws) e where "out = Inl e" "st' = st" "cs = []"
  | (hit) c v where "cache_get now (step_key step) st = (c, st')" "parse_cached c = Some v"
      "out = Inr v" "cs = []"
  | (invoked) tool c st1 r where "tls (toolName step) = Some tool"
      "cache_get now (step_key step) st = (c, st1)" "parse_cached c = None"
      "invoke tool (params step) ctx = Inr r"
      "out = Inr (success_result r (step_metadata step))"
      "st' = cache_set now (step_key step)
               (JSON_stringify (success_result r (step_metadata step))) 3600 None st1"
      "cs = [(tool, params step, ctx)]"
  | (failed) tool c e where "tls (toolName step) = Some tool"
      "cache_get now (step_key step) st = (c, st')" "parse_cached c = None"
      "invoke tool (params step) ctx = Inl e"
      "out = Inr (step_failure (error_message e) (step_metadata step))"
      "cs = [(tool, params step, ctx)]"
  using assms unfolding executeStep_def
  by (auto split: option.splits if_splits sum.splits prod.splits)

lemma stringify_nonempty: "JSON_stringify v \<noteq> []"
  using stringify_Cons [of v] by auto

lemma parse_cached_stringify: "parse_cached (Some (JSON_stringify v)) = Some v"
  by (simp add: parse_cached_def stringify_nonempty JSON_parse_stringify)

lemma cache_get_cases:
  assumes "cache_get now key st = (c, st')"
  obtains (absent) "st key = None" "c = None" "st' = st"
  | (expired) e where "st key = Some e" "expired now e" "c = None" "st' = st(key := None)"
  | (live) e where "st key = Some e" "\<not> expired now e" "c = Some (result e)" "st' = st"
  using assms unfolding cache_get_def by (auto split: option.splits if_splits)

lemma cache_get_inv:
  assumes "cache_inv st" and "cache_get now key st = (c, st')"
  shows "cache_inv st'" and "\<And>s. c = Some s \<Longrightarrow> payload_ok key s"
  using assms(2)
  by (cases rule: cache_get_cases; use assms(1) in \<open>auto simp: cache_inv_def\<close>)+

lemma cache_set_inv:
  "cache_inv st \<Longrightarrow> payload_ok key s \<Longrightarrow> cache_inv (cache_set now key s 3600 None st)"
  by (auto simp: cache_inv_def cache_set_def)

lemma step_key_nonempty: "step_key step \<noteq> []"
  by (simp add: step_key_def)

lemma parse_cached_payload:
  assumes "payload_ok key s" and "parse_cached (Some s) = Some v"
  shows "(\<exists>r md. v = success_result r md) \<or> (\<exists>rs. v = JArr rs \<and> (key = [] \<longrightarrow> rs = []))"
proof -
  from assms(1) consider
      (step) r md where "s = JSON_stringify (success_result r md)"
    | (chain) rs where "s = JSON_stringify (JArr rs)" "key = [] \<longrightarrow> rs = []"
    unfolding payload_ok_def by blast
  then show ?thesis
  proof cases
    case step
    with assms(2) have "v = success_result r md"
      by (simp only: parse_cached_stringify option.inject)
    then show ?thesis by blast
  next
    case chain
    with assms(2) have "v = JArr rs"
      by (simp only: parse_cached_stringify option.inject)
    with chain(2) show ?thesis by blast
  qed
qed

lemma executeStep_inv:
  assumes "cache_inv st" and "executeStep invoke now tls step ctx st = (out, st', cs)"
  shows "cache_inv st'" and "\<And>v. out = Inr v \<Longrightarrow> good_value v"
proof -
  from assms(2) have "cache_inv st' \<and> (\<forall>v. out = Inr v \<longrightarrow> good_value v)"
  proof (cases rule: executeStep_cases)
    case (throws e)
    then show ?thesis using assms(1) by simp
  next
    case (hit c v)
    from hit(2) obtain s where s: "c = Some s" by (cases c) (auto simp: parse_cached_def)
    have "payload_ok (step_key step) s"
      using cache_get_inv(2) [OF assms(1) hit(1) s] .
    with hit(2) s have "good_value v"
      using parse_cached_payload [of "step_key step" s v] by (auto simp: good_value_def)
    with hit cache_get_inv(1) [OF assms(1) hit(1)] show ?thesis by simp
  next
    case (invoked tool c st1 r)
    have "cache_inv st1" using cache_get_inv(1) [OF assms(1) invoked(2)] .
    moreover have "payload_ok (step_key step) (JSON_stringify (success_result r (step_metadata step)))"
      unfolding payload_ok_def using step_key_nonempty by blast
    ultimately have "cache_inv st'" unfolding invoked(6) by (rule cache_set_inv)
    with invoked(5) show ?thesis by (auto simp: good_value_def)
  next
    case (failed tool c e)
    with cache_get_inv(1) [OF assms(1) failed(2)] show ?thesis by (auto simp: good_value_def)
  qed
  then show "cache_inv st'" and "\<And>v. out = Inr v \<Longrightarrow> good_value v" by blast+
qed

lemma good_value_not_null: "good_value v \<Longrightarrow> v \<noteq> JNull"
  by (auto simp: good_value_def success_result_def step_failure_def chain_failure_def)

lemma good_value_success:
  "good_value v \<Longrightarrow> truthy_prop v ''success'' \<Longrightarrow> get_prop v ''success'' = Some (JBool True)"
  by (auto simp: good_value_def success_result_def step_failure_def chain_failure_def
      truthy_prop_def get_prop_def)

lemma run_steps_inv:
  assumes "cache_inv st" and "list_all good_value results"
    and "run_steps invoke now tls sts ctx results st calls = (rs, st', calls')"
  shows "cache_inv st' \<and> list_all good_value rs"
  using assms
proof (induction sts arbitrary: ctx results st calls)
  case Nil
  then show ?case by simp
next
  case (Cons step sts)
  obtain out st1 cs where ex: "executeStep invoke now tls step ctx st = (out, st1, cs)"
    by (cases "executeStep invoke now tls step ctx st") auto
  note inv = executeStep_inv [OF Cons.prems(1) ex]
  show ?case
  proof (cases out)
    case (Inl e)
    with Cons.prems ex inv show ?thesis by (auto simp: good_value_def)
  next
    case (Inr res)
    then have g: "good_value res" using inv(2) by simp
    then have nn: "res \<noteq> JNull" by (rule good_value_not_null)
    show ?thesis
    proof (cases "truthy_prop res ''success''")
      case False
      with Cons.prems ex Inr nn inv g show ?thesis by auto
    next
      case True
      have "run_steps invoke now tls sts (update_context ctx res) (results @ [res]) st1
              (calls @ cs) = (rs, st', calls')"
        using Cons.prems(3) ex Inr nn True by simp
      moreover have "list_all good_value (results @ [res])" using Cons.prems(2) g by simp
      ultimately show ?thesis using Cons.IH inv(1) by blast
    qed
  qed
qed

lemma every_success_total:
  "list_all good_value rs \<Longrightarrow> \<exists>b. every_success rs = Inr b"
  by (induction rs) (auto dest: good_value_not_null)

lemma generateChainKey_results_empty:
  assumes "generateChainKey sts = []"
    and "run_steps invoke now tls sts ctx [] st [] = (rs, st', calls')"
  shows "rs = []"
  using assms generateChainKey_empty_iff [of sts] by simp

lemma executeChain_inv:
  assumes "cache_inv (cache m)" and "executeChain invoke now m chain = (out, m', calls)"
  shows "cache_inv (cache m')" and "tools m' = tools m"
proof -
  let ?K = "generateChainKey (steps chain)"
  obtain c st0 where g: "cache_get now ?K (cache m) = (c, st0)"
    by (cases "cache_get now ?K (cache m)") auto
  have i0: "cache_inv st0" using cache_get_inv(1) [OF assms(1) g] .
  have "cache_inv (cache m') \<and> tools m' = tools m"
  proof (cases "parse_cached c")
    case (Some parsed)
    with assms(2) g i0 show ?thesis by (auto simp: executeChain_def)
  next
    case None
    obtain rs st1 cs where r: "run_steps invoke now (tools m) (steps chain)
        \<lparr>previousResults = [], context_metadata = []\<rparr> [] st0 [] = (rs, st1, cs)"
      by (cases "run_steps invoke now (tools m) (steps chain)
        \<lparr>previousResults = [], context_metadata = []\<rparr> [] st0 []") auto
    have i1: "cache_inv st1" "list_all good_value rs"
      using run_steps_inv [OF i0 _ r] by simp_all
    obtain b where b: "every_success rs = Inr b" using every_success_total [OF i1(2)] by blast
    have pk: "payload_ok ?K (JSON_stringify (JArr rs))"
      unfolding payload_ok_def using generateChainKey_results_empty [OF _ r] by blast
    have "cache_inv (cache_set now ?K (JSON_stringify (JArr rs)) 3600 None st1)"
      using i1(1) pk by (rule cache_set_inv)
    with assms(2) g None r b i1(1) show ?thesis
      by (auto simp: executeChain_def split: if_splits)
  qed
  then show "cache_inv (cache m')" and "tools m' = tools m" by blast+
qed

lemma reachable_inv: "reachable m \<Longrightarrow> cache_inv (cache m)"
proof (induction rule: reachable.induct)
  case init
  show ?case by (simp add: new_manager_def cache_inv_def)
next
  case (register m config)
  then show ?case by (simp add: registerTool_def)
next
  case (execute m invoke now chain out m' calls)
  then show ?case using executeChain_inv(1) by blast
qed

section \<open>Running the examples\<close>

lemmas example_defs =
  echo_tool_def echo_manager_def echo_invoke_def chain_of_def hi_step_def tagged_step_def
  tagged_hi_step_def echo_schema_def new_manager_def registerTool_def executeTool_def

lemmas summary_defs = summary_tool_def summary_manager_def summary_step_def step_a_def

lemmas run_defs =
  JSON_stringify.simps executeChain_def executeStep_def generateChainKey_def step_key_def cache_get_def
  cache_set_def expired_def parse_cached_def validateParams_def is_required_def has_key_def
  object_prototype_keys_def typeof_member_def missing_msg_def invalid_msg_def

lemmas result_defs =
  success_result_def step_failure_def chain_failure_def metadata_prop_def get_prop_def
  truthy_prop_def

text \<open>
  Claim C5, at a step that carries metadata and fails validation: the entry recorded for
  it has no \<open>metadata\<close>. The same step with valid parameters, failing in the
  collaborator, is recorded with its metadata.
\<close>

theorem executeChain_thrown_step_loses_metadata:
  "executeChain executeTool 0 echo_manager (chain_of [tagged_step])
     = (Inr (JArr [chain_failure ''Missing required parameter: msg'']), echo_manager, [])
   \<and> get_prop (chain_failure ''Missing required parameter: msg'') ''metadata'' = None
   \<and> step_metadata tagged_step = Some [(''tag'', JStr ''x'')]
   \<and> fst (executeChain executeTool 0 echo_manager (chain_of [tagged_hi_step]))
     = Inr (JArr [step_failure ''Tool execution not implemented'' (Some [(''tag'', JStr ''x'')])])
   \<and> get_prop (step_failure ''Tool execution not implemented'' (Some [(''tag'', JStr ''x'')]))
        ''metadata'' = Some (JObj [(''tag'', JStr ''x'')])"
  by (simp add: example_defs run_defs result_defs quote_def escape_char_def)

section \<open>What \<open>executeChain\<close> returns\<close>

subsection \<open>Failure entries\<close>

lemma chain_failure_props:
  "get_prop (chain_failure msg) ''success'' = Some (JBool False)"
  "get_prop (chain_failure msg) ''error'' = Some (JStr msg)"
  "get_prop (chain_failure msg) ''metadata'' = None"
  by (simp_all add: chain_failure_def get_prop_def)

lemma step_failure_props:
  "get_prop (step_failure msg md) ''success'' = Some (JBool False)"
  "get_prop (step_failure msg md) ''error'' = Some (JStr msg)"
  "get_prop (step_failure msg md) ''metadata'' = map_option JObj md"
  by (simp_all add: step_failure_def get_prop_def metadata_prop_def split: option.splits)

lemma reachable_echo_manager: "reachable echo_manager"
  unfolding echo_manager_def by (intro reachable.register reachable.init)

subsection \<open>Shape of the result list\<close>

lemma good_value_success_true:
  "good_value v \<Longrightarrow> truthy_prop v ''success'' \<Longrightarrow> success_true v"
  unfolding success_true_def by (rule good_value_success)

lemma run_steps_shape:
  assumes "cache_inv st" and "list_all success_true results"
    and "run_steps invoke now tls sts ctx results st calls = (rs, st', calls')"
  shows "length rs \<le> length results + length sts \<and> list_all success_true (butlast rs)"
  using assms
proof (induction sts arbitrary: ctx results st calls)
  case Nil
  then show ?case by (auto simp: list_all_iff dest: in_set_butlastD)
next
  case (Cons step sts)
  obtain out st1 cs where ex: "executeStep invoke now tls step ctx st = (out, st1, cs)"
    by (cases "executeStep invoke now tls step ctx st") auto
  note inv = executeStep_inv [OF Cons.prems(1) ex]
  show ?case
  proof (cases out)
    case (Inl e)
    with Cons.prems ex show ?thesis by auto
  next
    case (Inr res)
    then have g: "good_value res" using inv(2) by simp
    then have nn: "res \<noteq> JNull" by (rule good_value_not_null)
    show ?thesis
    proof (cases "truthy_prop res ''success''")
      case False
      with Cons.prems ex Inr nn show ?thesis by auto
    next
      case True
      have run: "run_steps invoke now tls sts (update_context ctx res) (results @ [res]) st1
              (calls @ cs) = (rs, st', calls')"
        using Cons.prems(3) ex Inr nn True by simp
      have "list_all success_true (results @ [res])"
        using Cons.prems(2) good_value_success_true [OF g True] by simp
      from Cons.IH [OF inv(1) this run] show ?thesis by simp
    qed
  qed
qed

lemma run_steps_first_fails:
  assumes "executeStep invoke now tls step ctx st = (out, st1, cs)" and "step_fails out"
  shows "run_steps invoke now tls (step # rest) ctx results st calls
           = (results @ [recorded out], st1, calls @ cs)"
proof (cases out)
  case (Inl e)
  with assms(1) show ?thesis by (simp add: recorded_def)
next
  case (Inr v)
  with assms(2) have f: "get_prop v ''success'' = Some (JBool False)"
    by (simp add: step_fails_def)
  then have "v \<noteq> JNull" "\<not> truthy_prop v ''success''"
    by (auto simp: get_prop_def truthy_prop_def)
  with assms(1) Inr show ?thesis by (simp add: recorded_def)
qed

lemma recorded_fails:
  "step_fails out \<Longrightarrow> get_prop (recorded out) ''success'' = Some (JBool False)"
  by (cases out) (simp_all add: step_fails_def recorded_def chain_failure_props)

lemma executeStep_calls:
  assumes "executeStep invoke now tls step ctx st = (out, st1, cs)"
  shows "length cs \<le> 1 \<and> (\<forall>c \<in> set cs. fst (snd c) = params step \<and> tls (toolName step) = Some (fst c))"
  using assms by (cases rule: executeStep_cases) auto

text \<open>
  Claim C2. In a reachable state, when the chain is not served from the whole-chain
  entry, the returned list is no longer than the chain and every entry but the last has
  \<open>success\<close> true. When the first step of a chain fails, the list is that one
  entry, its \<open>success\<close> is false, and the only calls to the collaborator are those
  of the first step (at most one, with that step's parameters): no later step is invoked.
\<close>

theorem executeChain_stops_at_first_failure:
  assumes "reachable m"
    and "parse_cached (fst (cache_get now (generateChainKey (steps chain)) (cache m))) = None"
  shows "\<exists>rs. fst (executeChain invoke now m chain) = Inr (JArr rs)
      \<and> length rs \<le> length (steps chain)
      \<and> (\<forall>r \<in> set (butlast rs). get_prop r ''success'' = Some (JBool True))
      \<and> (\<forall>A rest out st1 cs.
            steps chain = A # rest
            \<and> executeStep invoke now (tools m) A initial_context
                 (snd (cache_get now (generateChainKey (steps chain)) (cache m))) = (out, st1, cs)
            \<and> step_fails out \<longrightarrow>
            rs = [recorded out]
            \<and> get_prop (recorded out) ''success'' = Some (JBool False)
            \<and> snd (snd (executeChain invoke now m chain)) = cs
            \<and> length cs \<le> 1 \<and> (\<forall>c \<in> set cs. fst (snd c) = params A))"
proof -
  let ?K = "generateChainKey (steps chain)"
  have inv: "cache_inv (cache m)" using assms(1) by (rule reachable_inv)
  obtain c st0 where g: "cache_get now ?K (cache m) = (c, st0)"
    by (cases "cache_get now ?K (cache m)") auto
  have i0: "cache_inv st0" using cache_get_inv(1) [OF inv g] .
  have miss: "parse_cached c = None" using assms(2) g by simp
  obtain rs st1 cs where r: "run_steps invoke now (tools m) (steps chain)
      initial_context [] st0 [] = (rs, st1, cs)"
    by (cases "run_steps invoke now (tools m) (steps chain) initial_context [] st0 []") auto
  have "list_all good_value rs" using run_steps_inv [OF i0 _ r] by simp
  then obtain b where b: "every_success rs = Inr b" using every_success_total by blast
  have out: "executeChain invoke now m chain
      = (Inr (JArr rs),
         m\<lparr>cache := (if b then cache_set now ?K (JSON_stringify (JArr rs)) 3600 None st1
                      else st1)\<rparr>, cs)"
    using g miss r b by (simp add: executeChain_def initial_context_def)
  have shape: "length rs \<le> length (steps chain) \<and> list_all success_true (butlast rs)"
    using run_steps_shape [OF i0 _ r] by simp
  have first: "rs = [recorded out'] \<and> get_prop (recorded out') ''success'' = Some (JBool False)
      \<and> snd (snd (executeChain invoke now m chain)) = cs'
      \<and> length cs' \<le> 1 \<and> (\<forall>c \<in> set cs'. fst (snd c) = params A)"
    if a: "steps chain = A # rest"
      "executeStep invoke now (tools m) A initial_context st0 = (out', st1', cs')"
      "step_fails out'"
    for A rest out' st1' cs'
  proof -
    have "run_steps invoke now (tools m) (steps chain) initial_context [] st0 []
        = ([] @ [recorded out'], st1', [] @ cs')"
      unfolding a(1) using a(2,3) by (rule run_steps_first_fails)
    with r have "rs = [recorded out']" "cs = cs'" by simp_all
    with out recorded_fails [OF a(3)] executeStep_calls [OF a(2)] show ?thesis by simp
  qed
  show ?thesis
  proof (intro exI [of _ rs] conjI allI impI ballI)
    show "fst (executeChain invoke now m chain) = Inr (JArr rs)" using out by simp
    show "length rs \<le> length (steps chain)" using shape by simp
    show "get_prop r ''success'' = Some (JBool True)" if "r \<in> set (butlast rs)" for r
      using shape that by (auto simp: list_all_iff success_true_def)
  next
    fix A rest out' st1' cs'
    assume "steps chain = A # rest
       \<and> executeStep invoke now (tools m) A initial_context
            (snd (cache_get now ?K (cache m))) = (out', st1', cs')
       \<and> step_fails out'"
    then have a: "steps chain = A # rest"
      "executeStep invoke now (tools m) A initial_context st0 = (out', st1', cs')"
      "step_fails out'"
      using g by simp_all
    from first [OF a]
    show "rs = [recorded out']"
      and "get_prop (recorded out') ''success'' = Some (JBool False)"
      and "snd (snd (executeChain invoke now m chain)) = cs'"
      and "length cs' \<le> 1"
      and "\<And>c. c \<in> set cs' \<Longrightarrow> fst (snd c) = params A"
      by blast+
  qed
qed

theorem executeChain_stops_at_first_failure_witness:
  "parse_cached (fst (cache_get 0 (generateChainKey (steps (chain_of [tagged_hi_step, hi_step])))
      (cache echo_manager))) = None
   \<and> executeChain executeTool 0 echo_manager (chain_of [tagged_hi_step, hi_step])
       = (Inr (JArr [step_failure ''Tool execution not implemented'' (Some [(''tag'', JStr ''x'')])]),
          echo_manager,
          [(echo_tool, params tagged_hi_step, initial_context)])
   \<and> step_fails (Inr (step_failure ''Tool execution not implemented'' (Some [(''tag'', JStr ''x'')])))"
  using executeChain_stops_at_first_failure [OF reachable_echo_manager,
      of 0 "chain_of [tagged_hi_step, hi_step]" executeTool]
  by (simp add: example_defs run_defs result_defs initial_context_def step_fails_def
      recorded_def quote_def escape_char_def)

subsection \<open>No exception leaves \<open>executeChain\<close>\<close>

lemma previousResults_foldl:
  "previousResults (foldl update_context ctx rs) = previousResults ctx @ rs"
  by (induction rs arbitrary: ctx) (simp_all add: update_context_def)

lemma previousResults_context_after: "previousResults (context_after rs) = rs"
  by (simp add: context_after_def previousResults_foldl initial_context_def)

lemma run_steps_extends:
  "run_steps invoke now tls sts ctx results st calls = (rs, st', calls') \<Longrightarrow>
   \<exists>new. rs = results @ new"
proof (induction sts arbitrary: ctx results st calls)
  case Nil
  then show ?case by simp
next
  case (Cons step sts)
  obtain out st1 cs where ex: "executeStep invoke now tls step ctx st = (out, st1, cs)"
    by (cases "executeStep invoke now tls step ctx st") auto
  show ?case
  proof (cases out)
    case (Inl e)
    with Cons.prems ex show ?thesis by auto
  next
    case (Inr res)
    show ?thesis
    proof (cases "res \<noteq> JNull \<and> truthy_prop res ''success''")
      case False
      with Cons.prems ex Inr show ?thesis by (auto split: if_splits)
    next
      case True
      with Cons.prems ex Inr
      have "run_steps invoke now tls sts (update_context ctx res) (results @ [res]) st1
              (calls @ cs) = (rs, st', calls')" by simp
      from Cons.IH [OF this] show ?thesis by auto
    qed
  qed
qed

lemma truthy_prop_not_null: "truthy_prop r key \<Longrightarrow> r \<noteq> JNull"
  by (auto simp: truthy_prop_def get_prop_def)

lemma chain_failure_not_truthy: "\<not> truthy_prop (chain_failure msg) ''success''"
  by (simp add: truthy_prop_def chain_failure_props)

lemma run_steps_append:
  assumes "run_steps invoke now tls pre ctx results st calls = (results @ new, st', calls')"
    and "length new = length pre" and "\<forall>r \<in> set new. truthy_prop r ''success''"
  shows "run_steps invoke now tls (pre @ rest) ctx results st calls
       = run_steps invoke now tls rest (foldl update_context ctx new) (results @ new) st' calls'"
  using assms
proof (induction pre arbitrary: ctx results st calls new)
  case Nil
  then show ?case by simp
next
  case (Cons step pre)
  obtain out st1 cs where ex: "executeStep invoke now tls step ctx st = (out, st1, cs)"
    by (cases "executeStep invoke now tls step ctx st") auto
  obtain x new' where new: "new = x # new'" using Cons.prems(2) by (cases new) auto
  have tx: "truthy_prop x ''success''" using Cons.prems(3) new by simp
  show ?case
  proof (cases out)
    case (Inl e)
    with Cons.prems(1) ex new have "x = chain_failure (error_message e)" by simp
    with tx chain_failure_not_truthy show ?thesis by simp
  next
    case (Inr res)
    show ?thesis
    proof (cases "res \<noteq> JNull \<and> truthy_prop res ''success''")
      case False
      with Cons.prems(1) ex Inr new have "x = res" by (auto split: if_splits)
      with tx False truthy_prop_not_null show ?thesis by blast
    next
      case True
      with Cons.prems(1) ex Inr
      have run: "run_steps invoke now tls pre (update_context ctx res) (results @ [res]) st1
              (calls @ cs) = (results @ new, st', calls')" by simp
      from run_steps_extends [OF run] new have x: "x = res" by auto
      have run': "run_steps invoke now tls pre (update_context ctx res) (results @ [res]) st1
              (calls @ cs) = ((results @ [res]) @ new', st', calls')"
        using run new x by simp
      have "run_steps invoke now tls (pre @ rest) (update_context ctx res) (results @ [res]) st1
              (calls @ cs)
          = run_steps invoke now tls rest (foldl update_context (update_context ctx res) new')
              ((results @ [res]) @ new') st' calls'"
        using Cons.prems(2,3) new by (intro Cons.IH [OF run']) simp_all
      with ex Inr True new x show ?thesis by simp
    qed
  qed
qed

lemma every_success_snoc_false:
  "\<forall>r \<in> set rs. truthy_prop r ''success'' \<Longrightarrow> x \<noteq> JNull \<Longrightarrow> \<not> truthy_prop x ''success'' \<Longrightarrow>
   every_success (rs @ [x]) = Inr False"
  by (induction rs) (auto dest: truthy_prop_not_null)

lemma recorded_not_truthy:
  "step_fails out \<Longrightarrow> recorded out \<noteq> JNull \<and> \<not> truthy_prop (recorded out) ''success''"
  using recorded_fails [of out] by (auto simp: truthy_prop_def get_prop_def)

lemma executeChain_at_failing_step:
  assumes miss: "parse_cached (fst (cache_get now (generateChainKey (steps chain)) (cache m))) = None"
    and sts: "steps chain = pre @ step # post"
    and pre: "run_steps invoke now (tools m) pre initial_context []
               (snd (cache_get now (generateChainKey (steps chain)) (cache m))) [] = (rs, st, cs)"
    and len: "length rs = length pre"
    and ok: "\<forall>r \<in> set rs. truthy_prop r ''success''"
    and ex: "executeStep invoke now (tools m) step (context_after rs) st = (out, st1, cs1)"
    and fails: "step_fails out"
  shows "executeChain invoke now m chain
       = (Inr (JArr (rs @ [recorded out])), m\<lparr>cache := st1\<rparr>, cs @ cs1)"
proof -
  let ?K = "generateChainKey (steps chain)"
  obtain c st0 where g: "cache_get now ?K (cache m) = (c, st0)"
    by (cases "cache_get now ?K (cache m)") auto
  have pre': "run_steps invoke now (tools m) pre initial_context [] st0 [] = ([] @ rs, st, cs)"
    using pre g by simp
  have "run_steps invoke now (tools m) (pre @ step # post) initial_context [] st0 []
      = run_steps invoke now (tools m) (step # post) (foldl update_context initial_context rs)
          ([] @ rs) st cs"
    using pre' len ok by (rule run_steps_append)
  also have "\<dots> = (rs @ [recorded out], st1, cs @ cs1)"
    using run_steps_first_fails [OF ex [unfolded context_after_def] fails] by simp
  finally have run: "run_steps invoke now (tools m) (steps chain) initial_context [] st0 []
      = (rs @ [recorded out], st1, cs @ cs1)"
    using sts by simp
  have "every_success (rs @ [recorded out]) = Inr False"
    using ok recorded_not_truthy [OF fails] by (intro every_success_snoc_false) simp_all
  with g miss run show ?thesis
    by (simp add: executeChain_def initial_context_def)
qed

lemma executeChain_at_step:
  assumes "reaches_step invoke now m chain pre step rs st cs"
    and "executeStep invoke now (tools m) step (context_after rs) st = (out, st1, cs1)"
    and "step_fails out"
  shows "executeChain invoke now m chain
       = (Inr (JArr (rs @ [recorded out])), m\<lparr>cache := st1\<rparr>, cs @ cs1)"
proof -
  from assms(1) obtain post where
    "parse_cached (fst (cache_get now (generateChainKey (steps chain)) (cache m))) = None"
    "steps chain = pre @ step # post"
    "run_steps invoke now (tools m) pre initial_context []
       (snd (cache_get now (generateChainKey (steps chain)) (cache m))) [] = (rs, st, cs)"
    "length rs = length pre" "\<forall>r \<in> set rs. truthy_prop r ''success''"
    unfolding reaches_step_def by blast
  then show ?thesis using assms(2,3) by (rule executeChain_at_failing_step)
qed

lemma cache_inv_parses:
  assumes "cache_inv st" and "st key = Some e"
  shows "\<exists>v. parse_cached (Some (result e)) = Some v"
proof -
  from assms have "payload_ok key (result e)" by (auto simp: cache_inv_def)
  then obtain v where "result e = JSON_stringify v" unfolding payload_ok_def by blast
  then show ?thesis by (simp only: parse_cached_stringify) blast
qed

lemma parse_cached_unparsable: "JSON_parse s = None \<Longrightarrow> parse_cached (Some s) = None"
  by (simp add: parse_cached_def)

lemma executeStep_not_found:
  "tls (toolName step) = None \<Longrightarrow>
   executeStep invoke now tls step ctx st
     = (Inl (Error (''Tool not found: '' @ toolName step)), st, [])"
  by (simp add: executeStep_def)

lemma reachable_summary_manager: "reachable summary_manager"
  unfolding summary_manager_def echo_manager_def
  by (intro reachable.register reachable.init)

lemma reaches_first_step:
  "cache m = Map.empty \<Longrightarrow>
   reaches_step invoke now m (chain_of (step # post)) [] step [] Map.empty []"
  by (simp add: reaches_step_def chain_of_def cache_get_def parse_cached_def)

text \<open>
  Claim C1. In every state a manager can reach, \<open>executeChain\<close> returns a value for
  every chain, with any collaborator: no exception leaves it. A failure inside the
  execution of a step becomes the last entry of the list \<open>executeChain\<close> returns:
  when the run reaches a step after the steps before it have succeeded with the results
  \<open>rs\<close>, and the tool of the step is not registered, or it requires previous results
  and there are none, or the parameters do not pass validation, or the collaborator
  throws, then \<open>executeChain\<close> returns \<open>rs\<close> followed by one entry whose
  \<open>success\<close> is false and whose \<open>error\<close> is the message. Reading a payload back
  never fails in a reachable state: every payload in the store parses, before the call
  and at every step the run reaches. A payload that does not parse counts as a miss,
  which is the case \<open>parse_cached \<dots> = None\<close> of the hypotheses: the chain, or the
  step, is then executed.
\<close>

theorem executeChain_never_raises:
  "(reachable m \<longrightarrow> (\<exists>v m' calls. executeChain invoke now m chain = (Inr v, m', calls)))
   \<and> (reachable m \<longrightarrow>
        (\<forall>key e. cache m key = Some e \<longrightarrow> (\<exists>v. parse_cached (Some (result e)) = Some v)))
   \<and> (reachable m \<and> reaches_step invoke now m chain pre step rs st cs \<longrightarrow>
        (\<forall>key e. st key = Some e \<longrightarrow> (\<exists>v. parse_cached (Some (result e)) = Some v)))
   \<and> (\<forall>s. JSON_parse s = None \<longrightarrow> parse_cached (Some s) = None)
   \<and> (reaches_step invoke now m chain pre step rs st cs \<longrightarrow>
        (tools m (toolName step) = None \<longrightarrow>
           executeChain invoke now m chain
             = (Inr (JArr (rs @ [chain_failure (''Tool not found: '' @ toolName step)])),
                m\<lparr>cache := st\<rparr>, cs))
        \<and> (\<forall>tool. tools m (toolName step) = Some tool \<longrightarrow>
             (requiresPrevious tool = Some True \<and> previousResults (context_after rs) = [] \<longrightarrow>
                executeChain invoke now m chain
                  = (Inr (JArr (rs @ [chain_failure
                        (''Tool '' @ toolName step @ '' requires previous results'')])),
                     m\<lparr>cache := st\<rparr>, cs))
             \<and> (\<not> (requiresPrevious tool = Some True \<and> previousResults (context_after rs) = [])
                  \<longrightarrow>
                  (\<forall>msg. validateParams (params step) (inputSchema tool) = Inl msg \<longrightarrow>
                     executeChain invoke now m chain
                       = (Inr (JArr (rs @ [chain_failure msg])), m\<lparr>cache := st\<rparr>, cs))
                  \<and> (\<forall>e. validateParams (params step) (inputSchema tool) = Inr ()
                          \<and> parse_cached (fst (cache_get now (step_key step) st)) = None
                          \<and> invoke tool (params step) (context_after rs) = Inl e \<longrightarrow>
                       executeChain invoke now m chain
                         = (Inr (JArr (rs @ [step_failure (error_message e)
                                               (step_metadata step)])),
                            m\<lparr>cache := snd (cache_get now (step_key step) st)\<rparr>,
                            cs @ [(tool, params step, context_after rs)])))))
   \<and> get_prop (chain_failure text) ''success'' = Some (JBool False)
   \<and> get_prop (chain_failure text) ''error'' = Some (JStr text)
   \<and> get_prop (step_failure text md) ''success'' = Some (JBool False)
   \<and> get_prop (step_failure text md) ''error'' = Some (JStr text)"
proof (intro conjI impI allI)
  assume r: "reachable m"
  let ?K = "generateChainKey (steps chain)"
  have inv: "cache_inv (cache m)" using r by (rule reachable_inv)
  obtain c st0 where g: "cache_get now ?K (cache m) = (c, st0)"
    by (cases "cache_get now ?K (cache m)") auto
  have i0: "cache_inv st0" using cache_get_inv(1) [OF inv g] .
  show "\<exists>v m' calls. executeChain invoke now m chain = (Inr v, m', calls)"
  proof (cases "parse_cached c")
    case (Some parsed)
    with g show ?thesis by (simp add: executeChain_def)
  next
    case None
    obtain rs' st1 cs' where run: "run_steps invoke now (tools m) (steps chain)
        \<lparr>previousResults = [], context_metadata = []\<rparr> [] st0 [] = (rs', st1, cs')"
      by (cases "run_steps invoke now (tools m) (steps chain)
        \<lparr>previousResults = [], context_metadata = []\<rparr> [] st0 []") auto
    have "list_all good_value rs'" using run_steps_inv [OF i0 _ run] by simp
    then obtain b where "every_success rs' = Inr b" using every_success_total by blast
    with g None run show ?thesis by (simp add: executeChain_def)
  qed
next
  fix key e
  assume "reachable m" and "cache m key = Some e"
  then show "\<exists>v. parse_cached (Some (result e)) = Some v"
    using cache_inv_parses reachable_inv by blast
next
  fix key e
  assume a: "reachable m \<and> reaches_step invoke now m chain pre step rs st cs"
    and e: "st key = Some e"
  let ?K = "generateChainKey (steps chain)"
  have inv: "cache_inv (cache m)" using a reachable_inv by blast
  obtain c st0 where g: "cache_get now ?K (cache m) = (c, st0)"
    by (cases "cache_get now ?K (cache m)") auto
  have i0: "cache_inv st0" using cache_get_inv(1) [OF inv g] .
  from a g have "run_steps invoke now (tools m) pre initial_context [] st0 [] = (rs, st, cs)"
    by (simp add: reaches_step_def)
  from run_steps_inv [OF i0 _ this] have "cache_inv st" by simp
  then show "\<exists>v. parse_cached (Some (result e)) = Some v"
    using e by (rule cache_inv_parses)
next
  fix s
  assume "JSON_parse s = None"
  then show "parse_cached (Some s) = None" by (rule parse_cached_unparsable)
next
  assume h: "reaches_step invoke now m chain pre step rs st cs"
    and nf: "tools m (toolName step) = None"
  have ex: "executeStep invoke now (tools m) step (context_after rs) st
      = (Inl (Error (''Tool not found: '' @ toolName step)), st, [])"
    using nf by (rule executeStep_not_found)
  have "step_fails (Inl (Error (''Tool not found: '' @ toolName step)))"
    by (simp add: step_fails_def)
  from executeChain_at_step [OF h ex this]
  show "executeChain invoke now m chain
      = (Inr (JArr (rs @ [chain_failure (''Tool not found: '' @ toolName step)])),
         m\<lparr>cache := st\<rparr>, cs)"
    by (simp add: recorded_def)
next
  fix tool
  assume h: "reaches_step invoke now m chain pre step rs st cs"
    and t: "tools m (toolName step) = Some tool"
    and np: "requiresPrevious tool = Some True \<and> previousResults (context_after rs) = []"
  have ex: "executeStep invoke now (tools m) step (context_after rs) st
      = (Inl (Error (''Tool '' @ toolName step @ '' requires previous results'')), st, [])"
    using t np by (simp add: executeStep_def)
  have "step_fails (Inl (Error (''Tool '' @ toolName step @ '' requires previous results'')))"
    by (simp add: step_fails_def)
  from executeChain_at_step [OF h ex this]
  show "executeChain invoke now m chain
      = (Inr (JArr (rs @ [chain_failure
            (''Tool '' @ toolName step @ '' requires previous results'')])),
         m\<lparr>cache := st\<rparr>, cs)"
    by (simp add: recorded_def)
next
  fix tool msg
  assume h: "reaches_step invoke now m chain pre step rs st cs"
    and t: "tools m (toolName step) = Some tool"
    and np: "\<not> (requiresPrevious tool = Some True \<and> previousResults (context_after rs) = [])"
    and v: "validateParams (params step) (inputSchema tool) = Inl msg"
  have ex: "executeStep invoke now (tools m) step (context_after rs) st
      = (Inl (Error msg), st, [])"
    using t np v by (auto simp: executeStep_def)
  have "step_fails (Inl (Error msg))" by (simp add: step_fails_def)
  from executeChain_at_step [OF h ex this]
  show "executeChain invoke now m chain
      = (Inr (JArr (rs @ [chain_failure msg])), m\<lparr>cache := st\<rparr>, cs)"
    by (simp add: recorded_def)
next
  fix tool e
  assume h: "reaches_step invoke now m chain pre step rs st cs"
    and t: "tools m (toolName step) = Some tool"
    and np: "\<not> (requiresPrevious tool = Some True \<and> previousResults (context_after rs) = [])"
    and c: "validateParams (params step) (inputSchema tool) = Inr ()
        \<and> parse_cached (fst (cache_get now (step_key step) st)) = None
        \<and> invoke tool (params step) (context_after rs) = Inl e"
  have ex: "executeStep invoke now (tools m) step (context_after rs) st
      = (Inr (step_failure (error_message e) (step_metadata step)),
         snd (cache_get now (step_key step) st), [(tool, params step, context_after rs)])"
    using t np c by (cases "cache_get now (step_key step) st") (auto simp: executeStep_def)
  have "step_fails (Inr (step_failure (error_message e) (step_metadata step)))"
    by (simp add: step_fails_def step_failure_props)
  from executeChain_at_step [OF h ex this]
  show "executeChain invoke now m chain
      = (Inr (JArr (rs @ [step_failure (error_message e) (step_metadata step)])),
         m\<lparr>cache := snd (cache_get now (step_key step) st)\<rparr>,
         cs @ [(tool, params step, context_after rs)])"
    by (simp add: recorded_def)
qed (rule chain_failure_props step_failure_props)+

theorem executeChain_never_raises_witness:
  "reachable summary_manager
   \<and> executeChain executeTool 0 summary_manager (chain_of [step_a])
       = (Inr (JArr [chain_failure ''Tool not found: a'']), summary_manager, [])
   \<and> executeChain executeTool 0 summary_manager (chain_of [summary_step])
       = (Inr (JArr [chain_failure ''Tool summary requires previous results'']),
          summary_manager, [])
   \<and> executeChain executeTool 0 summary_manager (chain_of [tagged_step])
       = (Inr (JArr [chain_failure ''Missing required parameter: msg'']), summary_manager, [])
   \<and> executeChain executeTool 0 summary_manager (chain_of [tagged_hi_step])
       = (Inr (JArr [step_failure ''Tool execution not implemented''
                       (Some [(''tag'', JStr ''x'')])]),
          summary_manager, [(echo_tool, params tagged_hi_step, initial_context)])
   \<and> fst (executeChain echo_invoke 0 summary_manager (chain_of [hi_step, tagged_step]))
       = Inr (JArr [success_result (JStr ''hi'') None,
                    chain_failure ''Missing required parameter: msg''])
   \<and> snd (snd (executeChain echo_invoke 0 summary_manager (chain_of [hi_step, tagged_step])))
       = [(echo_tool, params hi_step, initial_context)]
   \<and> (\<exists>v m' calls. executeChain echo_invoke 0 summary_manager (chain_of [hi_step])
         = (Inr v, m', calls))"
proof -
  have r: "reachable summary_manager" by (rule reachable_summary_manager)
  have c: "cache summary_manager = Map.empty"
    by (simp add: summary_defs example_defs)
  have m: "summary_manager\<lparr>cache := Map.empty\<rparr> = summary_manager"
    by (simp add: summary_defs example_defs)
  have ctx: "context_after [] = initial_context" by (simp add: context_after_def)
  have e1: "executeChain executeTool 0 summary_manager (chain_of [step_a])
       = (Inr (JArr [chain_failure ''Tool not found: a'']), summary_manager, [])"
  proof -
    have "tools summary_manager (toolName step_a) = None"
      by (simp add: summary_defs example_defs)
    with executeChain_never_raises [where invoke = executeTool and now = 0
        and m = summary_manager and chain = "chain_of [step_a]" and pre = "[]"
        and step = step_a and rs = "[]" and st = Map.empty and cs = "[]"]
      reaches_first_step [OF c, of executeTool 0 step_a "[]"]
    show ?thesis by (simp add: m step_a_def)
  qed
  have e2: "executeChain executeTool 0 summary_manager (chain_of [summary_step])
       = (Inr (JArr [chain_failure ''Tool summary requires previous results'']),
          summary_manager, [])"
  proof -
    have "tools summary_manager (toolName summary_step) = Some summary_tool"
      "requiresPrevious summary_tool = Some True"
      "previousResults (context_after []) = []"
      by (simp_all add: summary_defs example_defs ctx initial_context_def)
    with executeChain_never_raises [where invoke = executeTool and now = 0
        and m = summary_manager and chain = "chain_of [summary_step]" and pre = "[]"
        and step = summary_step and rs = "[]" and st = Map.empty and cs = "[]"]
      reaches_first_step [OF c, of executeTool 0 summary_step "[]"]
    show ?thesis by (simp add: m summary_step_def)
  qed
  have e3: "executeChain executeTool 0 summary_manager (chain_of [tagged_step])
       = (Inr (JArr [chain_failure ''Missing required parameter: msg'']), summary_manager, [])"
  proof -
    have "tools summary_manager (toolName tagged_step) = Some echo_tool"
      "requiresPrevious echo_tool = None"
      "validateParams (params tagged_step) (inputSchema echo_tool)
         = Inl ''Missing required parameter: msg''"
      by (simp_all add: summary_defs example_defs run_defs)
    with executeChain_never_raises [where invoke = executeTool and now = 0
        and m = summary_manager and chain = "chain_of [tagged_step]" and pre = "[]"
        and step = tagged_step and rs = "[]" and st = Map.empty and cs = "[]"]
      reaches_first_step [OF c, of executeTool 0 tagged_step "[]"]
    show ?thesis by (simp add: m)
  qed
  have e4: "executeChain executeTool 0 summary_manager (chain_of [tagged_hi_step])
       = (Inr (JArr [step_failure ''Tool execution not implemented''
                       (Some [(''tag'', JStr ''x'')])]),
          summary_manager, [(echo_tool, params tagged_hi_step, initial_context)])"
  proof -
    have "tools summary_manager (toolName tagged_hi_step) = Some echo_tool"
      "requiresPrevious echo_tool = None"
      "validateParams (params tagged_hi_step) (inputSchema echo_tool) = Inr ()"
      "parse_cached (fst (cache_get 0 (step_key tagged_hi_step) Map.empty)) = None"
      "snd (cache_get 0 (step_key tagged_hi_step) Map.empty) = Map.empty"
      "executeTool echo_tool (params tagged_hi_step) (context_after [])
         = Inl (Error ''Tool execution not implemented'')"
      "step_metadata tagged_hi_step = Some [(''tag'', JStr ''x'')]"
      by (simp_all add: summary_defs example_defs run_defs)
    with executeChain_never_raises [where invoke = executeTool and now = 0
        and m = summary_manager and chain = "chain_of [tagged_hi_step]" and pre = "[]"
        and step = tagged_hi_step and rs = "[]" and st = Map.empty and cs = "[]"]
      reaches_first_step [OF c, of executeTool 0 tagged_hi_step "[]"]
    show ?thesis by (simp add: m ctx)
  qed
  let ?st = "Map.empty(step_key hi_step \<mapsto>
      \<lparr>result = JSON_stringify (success_result (JStr ''hi'') None), timestamp = 0,
       ttl = 3600, metadata = None\<rparr>)"
  have e5: "executeChain echo_invoke 0 summary_manager (chain_of [hi_step, tagged_step])
       = (Inr (JArr ([success_result (JStr ''hi'') None]
                       @ [chain_failure ''Missing required parameter: msg''])),
          summary_manager\<lparr>cache := ?st\<rparr>, [(echo_tool, params hi_step, initial_context)])"
  proof -
    have h: "reaches_step echo_invoke 0 summary_manager (chain_of [hi_step, tagged_step])
        [hi_step] tagged_step [success_result (JStr ''hi'') None] ?st
        [(echo_tool, params hi_step, initial_context)]"
      unfolding reaches_step_def
      by (simp add: summary_defs example_defs run_defs result_defs initial_context_def
          quote_def escape_char_def)
    have "tools summary_manager (toolName tagged_step) = Some echo_tool"
      "requiresPrevious echo_tool = None"
      "validateParams (params tagged_step) (inputSchema echo_tool)
         = Inl ''Missing required parameter: msg''"
      by (simp_all add: summary_defs example_defs run_defs)
    with executeChain_never_raises [where invoke = echo_invoke and now = 0
        and m = summary_manager and chain = "chain_of [hi_step, tagged_step]"
        and pre = "[hi_step]" and step = tagged_step
        and rs = "[success_result (JStr ''hi'') None]" and st = ?st
        and cs = "[(echo_tool, params hi_step, initial_context)]"] h
    show ?thesis by simp
  qed
  have e6: "\<exists>v m' calls. executeChain echo_invoke 0 summary_manager (chain_of [hi_step])
         = (Inr v, m', calls)"
    using executeChain_never_raises [where invoke = echo_invoke and now = 0
        and m = summary_manager and chain = "chain_of [hi_step]"] r
    by blast
  from r e1 e2 e3 e4 e5 e6 show ?thesis by simp
qed

subsection \<open>The whole-chain entry\<close>

text \<open>
  Claim C3. When a run that executes the steps returns a list in which every result
  succeeded, a second call on a chain with the same steps, within the hour, returns the
  same list, leaves the manager as it is and makes no call to the collaborator, whatever
  the collaborator would have done.
\<close>

theorem executeChain_second_call_cached:
  assumes "parse_cached (fst (cache_get now1 (generateChainKey (steps chain)) (cache m))) = None"
    and "executeChain invoke1 now1 m chain = (Inr (JArr rs), m1, calls1)"
    and "every_success rs = Inr True"
    and "steps chain' = steps chain"
    and "now2 - now1 \<le> 3600 * 1000"
  shows "executeChain invoke2 now2 m1 chain' = (Inr (JArr rs), m1, [])"
proof -
  let ?K = "generateChainKey (steps chain)"
  obtain c st0 where g: "cache_get now1 ?K (cache m) = (c, st0)"
    by (cases "cache_get now1 ?K (cache m)") auto
  have miss: "parse_cached c = None" using assms(1) g by simp
  obtain rs' st1 cs where r: "run_steps invoke1 now1 (tools m) (steps chain)
      \<lparr>previousResults = [], context_metadata = []\<rparr> [] st0 [] = (rs', st1, cs)"
    by (cases "run_steps invoke1 now1 (tools m) (steps chain)
      \<lparr>previousResults = [], context_metadata = []\<rparr> [] st0 []") auto
  from assms(2) g miss r have rs: "rs' = rs"
    by (auto simp: executeChain_def split: sum.splits)
  from assms(2) g miss r rs assms(3)
  have m1: "m1 = m\<lparr>cache := cache_set now1 ?K (JSON_stringify (JArr rs)) 3600 None st1\<rparr>"
    by (auto simp: executeChain_def)
  have "cache_get now2 ?K (cache m1) = (Some (JSON_stringify (JArr rs)), cache m1)"
    using assms(5) by (simp add: m1 cache_get_def cache_set_def expired_def)
  then show ?thesis
    by (simp add: executeChain_def assms(4) parse_cached_stringify)
qed

theorem executeChain_second_call_cached_witness:
  "parse_cached (fst (cache_get 0 (generateChainKey (steps (chain_of [hi_step])))
      (cache echo_manager))) = None
   \<and> fst (executeChain echo_invoke 0 echo_manager (chain_of [hi_step]))
       = Inr (JArr [success_result (JStr ''hi'') None])
   \<and> every_success [success_result (JStr ''hi'') None] = Inr True
   \<and> executeChain executeTool 1000
        (fst (snd (executeChain echo_invoke 0 echo_manager (chain_of [hi_step]))))
        (chain_of [hi_step])
       = (Inr (JArr [success_result (JStr ''hi'') None]),
          fst (snd (executeChain echo_invoke 0 echo_manager (chain_of [hi_step]))), [])"
proof -
  have miss: "parse_cached (fst (cache_get 0 (generateChainKey (steps (chain_of [hi_step])))
      (cache echo_manager))) = None"
    by (simp add: example_defs run_defs)
  have first: "fst (executeChain echo_invoke 0 echo_manager (chain_of [hi_step]))
       = Inr (JArr [success_result (JStr ''hi'') None])"
    by (simp add: example_defs run_defs result_defs quote_def escape_char_def)
  have run: "executeChain echo_invoke 0 echo_manager (chain_of [hi_step])
       = (Inr (JArr [success_result (JStr ''hi'') None]),
          fst (snd (executeChain echo_invoke 0 echo_manager (chain_of [hi_step]))),
          snd (snd (executeChain echo_invoke 0 echo_manager (chain_of [hi_step]))))"
    using first by (simp add: prod_eq_iff)
  have ok: "every_success [success_result (JStr ''hi'') None] = Inr True"
    by (simp add: result_defs)
  have "(1000::int) - 0 \<le> 3600 * 1000" by simp
  from executeChain_second_call_cached [OF miss run ok refl this, of executeTool]
  show ?thesis using miss first ok by simp
qed

lemma cache_get_again:
  assumes "cache_get now key st = (c, st0)"
  shows "cache_get now key st0 = (c, st0)"
  using assms by (cases rule: cache_get_cases) (simp_all add: cache_get_def)

lemma cache_get_other:
  assumes "cache_get now key st = (c, st')" and "k \<noteq> key"
  shows "st' k = st k"
  using assms(1) by (cases rule: cache_get_cases) (use assms(2) in simp_all)

lemma executeStep_frame:
  assumes "executeStep invoke now tls step ctx st = (out, st', cs)" and "k \<noteq> step_key step"
  shows "st' k = st k"
  using assms(1)
proof (cases rule: executeStep_cases)
  case (invoked tool c st1 r)
  with assms(2) cache_get_other [OF invoked(2) assms(2)] show ?thesis
    by (simp add: cache_set_def)
qed (use assms(2) cache_get_other in auto)

lemma run_steps_frame:
  assumes "run_steps invoke now tls sts ctx results st calls = (rs, st', calls')"
    and "k \<notin> step_key ` set sts"
  shows "st' k = st k"
  using assms
proof (induction sts arbitrary: ctx results st calls)
  case Nil
  then show ?case by simp
next
  case (Cons step sts)
  obtain out st1 cs where ex: "executeStep invoke now tls step ctx st = (out, st1, cs)"
    by (cases "executeStep invoke now tls step ctx st") auto
  have k: "k \<noteq> step_key step" "k \<notin> step_key ` set sts" using Cons.prems(2) by auto
  have f: "st1 k = st k" using executeStep_frame [OF ex k(1)] .
  show ?case
  proof (cases out)
    case (Inl e)
    with Cons.prems(1) ex f show ?thesis by auto
  next
    case (Inr res)
    show ?thesis
    proof (cases "res \<noteq> JNull \<and> truthy_prop res ''success''")
      case False
      with Cons.prems(1) ex Inr f show ?thesis by (auto split: if_splits)
    next
      case True
      with Cons.prems(1) ex Inr
      have "run_steps invoke now tls sts (update_context ctx res) (results @ [res]) st1
              (calls @ cs) = (rs, st', calls')" by simp
      from Cons.IH [OF this k(2)] f show ?thesis by simp
    qed
  qed
qed

lemma generateChainKey_step_key:
  "generateChainKey (s # sts) = step_key s @ key_tail sts"
  by (simp add: generateChainKey_Cons_tail step_key_def)

lemma step_key_le_chain_key:
  "s \<in> set sts \<Longrightarrow> length (step_key s) \<le> length (generateChainKey sts)"
proof (induction sts)
  case Nil
  then show ?case by simp
next
  case (Cons x sts)
  show ?case
  proof (cases "s = x")
    case True
    then show ?thesis by (simp add: generateChainKey_step_key)
  next
    case False
    with Cons have "length (step_key s) \<le> length (generateChainKey sts)" "sts \<noteq> []" by auto
    then show ?thesis by (simp add: generateChainKey_step_key key_tail_def)
  qed
qed

lemma step_key_neq_chain_key:
  assumes "s \<in> set (x # y # zs)"
  shows "step_key s \<noteq> generateChainKey (x # y # zs)"
proof -
  have "length (step_key s) < length (generateChainKey (x # y # zs))"
  proof (cases "s = x")
    case True
    then show ?thesis by (simp add: generateChainKey_step_key [of x] key_tail_def)
  next
    case False
    with assms have "s \<in> set (y # zs)" by simp
    then have "length (step_key s) \<le> length (generateChainKey (y # zs))"
      by (rule step_key_le_chain_key)
    then show ?thesis by (simp add: generateChainKey_step_key [of x] key_tail_def)
  qed
  then show ?thesis by auto
qed

lemma run_steps_single_keeps_key:
  assumes g: "cache_get now (step_key s) st = (c, st0)"
    and r: "run_steps invoke now tls [s] ctx [] st0 [] = (rs, st1, cs)"
    and b: "every_success rs = Inr False"
  shows "st1 = st0"
proof -
  obtain out st' cs' where ex: "executeStep invoke now tls s ctx st0 = (out, st', cs')"
    by (cases "executeStep invoke now tls s ctx st0") auto
  note again = cache_get_again [OF g]
  from ex show ?thesis
  proof (cases rule: executeStep_cases)
    case (throws e)
    with r ex show ?thesis by simp
  next
    case (hit c' v)
    with again have "st' = st0" by simp
    with r ex hit show ?thesis by (auto split: if_splits)
  next
    case (invoked tool c' st1' v)
    have "success_result v (step_metadata s) \<noteq> JNull"
      "truthy_prop (success_result v (step_metadata s)) ''success''"
      by (simp_all add: success_result_def truthy_prop_def get_prop_def)
    with r ex invoked(5) have "rs = [success_result v (step_metadata s)]" by simp
    with b show ?thesis
      by (simp add: success_result_def truthy_prop_def get_prop_def)
  next
    case (failed tool c' e)
    with again have "st' = st0" by simp
    with r ex failed show ?thesis by (auto split: if_splits)
  qed
qed

lemma reachable_src_reachable: "reachable_src m \<Longrightarrow> reachable m"
  by (induction rule: reachable_src.induct) (auto intro: reachable.intros)

lemma cache_get_only_empty:
  assumes "only_empty_key st" and "cache_get now key st = (c, st')"
  shows "only_empty_key st'"
  using assms(2)
  by (cases rule: cache_get_cases) (use assms(1) in \<open>auto simp: only_empty_key_def\<close>)

lemma executeStep_src:
  assumes "only_empty_key st" and "executeStep executeTool now tls step ctx st = (out, st', cs)"
  shows "st' = st \<and> step_fails out"
proof -
  have none: "st (step_key step) = None"
    using assms(1) step_key_nonempty [of step] by (auto simp: only_empty_key_def)
  then have g: "cache_get now (step_key step) st = (None, st)"
    by (simp add: cache_get_def)
  from assms(2) show ?thesis
  proof (cases rule: executeStep_cases)
    case (throws e)
    then show ?thesis by (simp add: step_fails_def)
  next
    case (hit c v)
    with g show ?thesis by (simp add: parse_cached_def)
  next
    case (invoked tool c st1 r)
    then show ?thesis by (simp add: executeTool_def)
  next
    case (failed tool c e)
    with g show ?thesis by (simp add: step_fails_def step_failure_props)
  qed
qed

lemma run_steps_src:
  assumes "only_empty_key st"
    and "run_steps executeTool now tls (step # rest) ctx [] st [] = (rs, st', cs)"
  shows "st' = st \<and> every_success rs = Inr False"
proof -
  obtain out st1 cs1 where ex: "executeStep executeTool now tls step ctx st = (out, st1, cs1)"
    by (cases "executeStep executeTool now tls step ctx st") auto
  from executeStep_src [OF assms(1) ex] have s: "st1 = st" and f: "step_fails out" by simp_all
  from run_steps_first_fails [OF ex f, of rest "[]" "[]"] assms(2)
  have rs: "rs = [recorded out]" and st: "st' = st1" by simp_all
  have "get_prop (recorded out) ''success'' = Some (JBool False)"
    using f by (rule recorded_fails)
  then have "recorded out \<noteq> JNull" "\<not> truthy_prop (recorded out) ''success''"
    by (auto simp: get_prop_def truthy_prop_def)
  then show ?thesis using rs st s by simp
qed

lemma executeChain_src_inv:
  assumes "only_empty_key (cache m)"
    and "executeChain executeTool now m chain = (out, m', calls)"
  shows "only_empty_key (cache m')"
proof -
  let ?K = "generateChainKey (steps chain)"
  obtain c st0 where g: "cache_get now ?K (cache m) = (c, st0)"
    by (cases "cache_get now ?K (cache m)") auto
  have i0: "only_empty_key st0" using cache_get_only_empty [OF assms(1) g] .
  show ?thesis
  proof (cases "parse_cached c")
    case (Some parsed)
    with assms(2) g i0 show ?thesis by (auto simp: executeChain_def)
  next
    case None
    show ?thesis
    proof (cases "steps chain")
      case Nil
      with assms(2) g None i0 show ?thesis
        by (auto simp: executeChain_def generateChainKey_Nil cache_set_def only_empty_key_def
            split: if_splits)
    next
      case (Cons step rest)
      obtain rs st1 cs where r: "run_steps executeTool now (tools m) (step # rest)
          \<lparr>previousResults = [], context_metadata = []\<rparr> [] st0 [] = (rs, st1, cs)"
        by (cases "run_steps executeTool now (tools m) (step # rest)
          \<lparr>previousResults = [], context_metadata = []\<rparr> [] st0 []") auto
      from run_steps_src [OF i0 r] have "st1 = st0" "every_success rs = Inr False" by simp_all
      with assms(2) g None r Cons i0 show ?thesis by (auto simp: executeChain_def)
    qed
  qed
qed

lemma reachable_src_only_empty: "reachable_src m \<Longrightarrow> only_empty_key (cache m)"
proof (induction rule: reachable_src.induct)
  case src_init
  show ?case by (simp add: new_manager_def only_empty_key_def)
next
  case (src_register m config)
  then show ?case by (simp add: registerTool_def)
next
  case (src_execute m now chain out m' calls)
  then show ?case using executeChain_src_inv by blast
qed

lemma chain_entry_after_failure:
  assumes "parse_cached (fst (cache_get now (generateChainKey (steps chain)) (cache m))) = None"
    and "executeChain invoke now m chain = (Inr (JArr rs), m', calls)"
    and b: "every_success rs = Inr False"
  shows "steps chain \<noteq> []"
    and "cache m' (generateChainKey (steps chain)) = cache m (generateChainKey (steps chain))
       \<or> (cache m' (generateChainKey (steps chain)) = None
           \<and> (\<exists>e. cache m (generateChainKey (steps chain)) = Some e
                  \<and> now - timestamp e > ttl e * 1000))"
proof -
  let ?K = "generateChainKey (steps chain)"
  obtain c st0 where g: "cache_get now ?K (cache m) = (c, st0)"
    by (cases "cache_get now ?K (cache m)") auto
  have miss: "parse_cached c = None" using assms(1) g by simp
  obtain rs' st1 cs where r: "run_steps invoke now (tools m) (steps chain)
      \<lparr>previousResults = [], context_metadata = []\<rparr> [] st0 [] = (rs', st1, cs)"
    by (cases "run_steps invoke now (tools m) (steps chain)
      \<lparr>previousResults = [], context_metadata = []\<rparr> [] st0 []") auto
  from assms(2) g miss r have rs: "rs' = rs"
    by (auto simp: executeChain_def split: sum.splits)
  from assms(2) g miss r rs b have m': "cache m' = st1"
    by (auto simp: executeChain_def)
  show ne: "steps chain \<noteq> []"
  proof
    assume "steps chain = []"
    with r rs b show False by simp
  qed
  have keep: "st1 ?K = st0 ?K"
  proof (cases "steps chain")
    case Nil
    with ne show ?thesis by simp
  next
    case (Cons x sts)
    show ?thesis
    proof (cases sts)
      case Nil
      have k: "generateChainKey [x] = step_key x"
        by (simp add: generateChainKey_step_key key_tail_def)
      have "st1 = st0"
        using g r b unfolding Cons Nil rs k by (rule run_steps_single_keeps_key)
      then show ?thesis by simp
    next
      case (Cons y zs)
      have all: "steps chain = x # y # zs"
        using \<open>steps chain = x # sts\<close> Cons by simp
      have "?K \<notin> step_key ` set (steps chain)"
      proof
        assume "?K \<in> step_key ` set (steps chain)"
        then obtain s where "s \<in> set (x # y # zs)"
          and "step_key s = generateChainKey (x # y # zs)"
          unfolding all by force
        then show False using step_key_neq_chain_key by blast
      qed
      with r show ?thesis by (rule run_steps_frame)
    qed
  qed
  from g show "cache m' ?K = cache m ?K
      \<or> (cache m' ?K = None \<and> (\<exists>e. cache m ?K = Some e \<and> now - timestamp e > ttl e * 1000))"
    by (cases rule: cache_get_cases) (use m' keep in \<open>auto simp: expired_def\<close>)
qed

lemma executeChain_hit:
  assumes "parse_cached (fst (cache_get now (generateChainKey (steps chain)) (cache m))) = Some v"
  shows "executeChain invoke now m chain = (Inr v, m, [])"
proof -
  let ?K = "generateChainKey (steps chain)"
  obtain c st0 where g: "cache_get now ?K (cache m) = (c, st0)"
    by (cases "cache_get now ?K (cache m)") auto
  from g have "st0 = cache m"
    by (cases rule: cache_get_cases) (use assms g in \<open>auto simp: parse_cached_def\<close>)
  with g assms show ?thesis by (simp add: executeChain_def)
qed

lemma reachable_src_echo_manager: "reachable_src echo_manager"
  unfolding echo_manager_def by (intro reachable_src.src_register reachable_src.src_init)

text \<open>
  Claim C4, as amended. On a run that executes the steps (the lookup under the chain key
  gives nothing to serve), the result list is stored under the chain key, at the instant
  of the call and for one hour, when every result succeeded. When a result failed,
  nothing is written under the chain key: in every state the manager of the source can
  reach the entry under the chain key is the one from before the call; with a
  collaborator that can succeed it is the one from before, or there is none because the
  one from before had expired and the lookup removed it. A call that the lookup serves
  leaves the manager as it was: it stores nothing.
\<close>

theorem executeChain_chain_entry:
  "(parse_cached (fst (cache_get now (generateChainKey (steps chain)) (cache m))) = None
    \<and> executeChain invoke now m chain = (Inr (JArr rs), m', calls) \<longrightarrow>
      (every_success rs = Inr True \<longrightarrow>
         cache m' (generateChainKey (steps chain))
           = Some \<lparr>result = JSON_stringify (JArr rs), timestamp = now, ttl = 3600,
                    metadata = None\<rparr>)
      \<and> (every_success rs = Inr False \<longrightarrow>
           (reachable_src m \<and> invoke = executeTool \<longrightarrow>
              cache m' (generateChainKey (steps chain))
                = cache m (generateChainKey (steps chain)))
           \<and> (cache m' (generateChainKey (steps chain))
                = cache m (generateChainKey (steps chain))
              \<or> (cache m' (generateChainKey (steps chain)) = None
                  \<and> (\<exists>e. cache m (generateChainKey (steps chain)) = Some e
                         \<and> now - timestamp e > ttl e * 1000)))))
   \<and> (\<forall>v. parse_cached (fst (cache_get now (generateChainKey (steps chain)) (cache m)))
             = Some v \<longrightarrow>
          executeChain invoke now m chain = (Inr v, m, []))"
proof (intro conjI impI allI)
  let ?K = "generateChainKey (steps chain)"
  assume a: "parse_cached (fst (cache_get now ?K (cache m))) = None
    \<and> executeChain invoke now m chain = (Inr (JArr rs), m', calls)"
    and t: "every_success rs = Inr True"
  obtain c st0 where g: "cache_get now ?K (cache m) = (c, st0)"
    by (cases "cache_get now ?K (cache m)") auto
  have miss: "parse_cached c = None" using a g by simp
  obtain rs' st1 cs where r: "run_steps invoke now (tools m) (steps chain)
      \<lparr>previousResults = [], context_metadata = []\<rparr> [] st0 [] = (rs', st1, cs)"
    by (cases "run_steps invoke now (tools m) (steps chain)
      \<lparr>previousResults = [], context_metadata = []\<rparr> [] st0 []") auto
  from a g miss r have rs: "rs' = rs"
    by (auto simp: executeChain_def split: sum.splits)
  with a g miss r t show "cache m' ?K
      = Some \<lparr>result = JSON_stringify (JArr rs), timestamp = now, ttl = 3600, metadata = None\<rparr>"
    by (auto simp: executeChain_def cache_set_def)
next
  let ?K = "generateChainKey (steps chain)"
  assume a: "parse_cached (fst (cache_get now ?K (cache m))) = None
    \<and> executeChain invoke now m chain = (Inr (JArr rs), m', calls)"
    and f: "every_success rs = Inr False"
  note after = chain_entry_after_failure [OF a [THEN conjunct1] a [THEN conjunct2] f]
  show "cache m' ?K = cache m ?K
      \<or> (cache m' ?K = None \<and> (\<exists>e. cache m ?K = Some e \<and> now - timestamp e > ttl e * 1000))"
    by (rule after(2))
  assume "reachable_src m \<and> invoke = executeTool"
  then have "only_empty_key (cache m)" using reachable_src_only_empty by blast
  moreover have "?K \<noteq> []" using after(1) by (simp add: generateChainKey_empty_iff)
  ultimately have "cache m ?K = None" by (auto simp: only_empty_key_def)
  with after(2) show "cache m' ?K = cache m ?K" by auto
next
  fix v
  assume "parse_cached (fst (cache_get now (generateChainKey (steps chain)) (cache m))) = Some v"
  then show "executeChain invoke now m chain = (Inr v, m, [])" by (rule executeChain_hit)
qed

theorem executeChain_chain_entry_witness:
  "reachable_src echo_manager
   \<and> executeChain executeTool 0 echo_manager (chain_of [tagged_hi_step])
       = (Inr (JArr [step_failure ''Tool execution not implemented''
                       (Some [(''tag'', JStr ''x'')])]),
          echo_manager, [(echo_tool, params tagged_hi_step, initial_context)])
   \<and> every_success [step_failure ''Tool execution not implemented''
                      (Some [(''tag'', JStr ''x'')])] = Inr False
   \<and> cache echo_manager (generateChainKey [tagged_hi_step]) = None
   \<and> executeChain executeTool 7 echo_manager (chain_of [])
       = (Inr (JArr []), echo_manager\<lparr>cache := Map.empty([] \<mapsto> empty_entry 7)\<rparr>, [])
   \<and> every_success [] = Inr True
   \<and> executeChain executeTool 9 (echo_manager\<lparr>cache := Map.empty([] \<mapsto> empty_entry 7)\<rparr>)
        (chain_of [])
       = (Inr (JArr []), echo_manager\<lparr>cache := Map.empty([] \<mapsto> empty_entry 7)\<rparr>, [])
   \<and> fst (executeChain echo_invoke 0 echo_manager (chain_of [hi_step]))
       = Inr (JArr [success_result (JStr ''hi'') None])
   \<and> cache (fst (snd (executeChain echo_invoke 0 echo_manager (chain_of [hi_step]))))
        (generateChainKey [hi_step])
       = Some \<lparr>result = JSON_stringify (JArr [success_result (JStr ''hi'') None]),
               timestamp = 0, ttl = 3600, metadata = None\<rparr>"
proof -
  let ?m7 = "echo_manager\<lparr>cache := Map.empty([] \<mapsto> empty_entry 7)\<rparr>"
  have src: "reachable_src echo_manager" by (rule reachable_src_echo_manager)
  have miss1: "parse_cached (fst (cache_get 0 (generateChainKey (steps (chain_of [tagged_hi_step])))
      (cache echo_manager))) = None"
    by (simp add: example_defs run_defs)
  have run1: "executeChain executeTool 0 echo_manager (chain_of [tagged_hi_step])
     = (Inr (JArr [step_failure ''Tool execution not implemented'' (Some [(''tag'', JStr ''x'')])]),
        echo_manager, [(echo_tool, params tagged_hi_step, initial_context)])"
    by (simp add: example_defs run_defs result_defs initial_context_def quote_def escape_char_def)
  have fail1: "every_success [step_failure ''Tool execution not implemented''
      (Some [(''tag'', JStr ''x'')])] = Inr False"
    by (simp add: result_defs)
  have none: "cache echo_manager (generateChainKey [tagged_hi_step]) = None"
    by (simp add: example_defs)
  have miss0: "parse_cached (fst (cache_get 7 (generateChainKey (steps (chain_of [])))
      (cache echo_manager))) = None"
    by (simp add: example_defs run_defs)
  have run0: "executeChain executeTool 7 echo_manager (chain_of [])
       = (Inr (JArr []), ?m7, [])"
    by (simp add: example_defs run_defs empty_entry_def)
  have ok0: "every_success [] = Inr True" by simp
  have hit: "parse_cached (fst (cache_get 9 (generateChainKey (steps (chain_of [])))
      (cache ?m7))) = Some (JArr [])"
    by (simp add: example_defs run_defs empty_entry_def JSON_parse_def)
  have miss2: "parse_cached (fst (cache_get 0 (generateChainKey (steps (chain_of [hi_step])))
      (cache echo_manager))) = None"
    by (simp add: example_defs run_defs)
  have first: "fst (executeChain echo_invoke 0 echo_manager (chain_of [hi_step]))
       = Inr (JArr [success_result (JStr ''hi'') None])"
    by (simp add: example_defs run_defs result_defs quote_def escape_char_def)
  have run2: "executeChain echo_invoke 0 echo_manager (chain_of [hi_step])
       = (Inr (JArr [success_result (JStr ''hi'') None]),
          fst (snd (executeChain echo_invoke 0 echo_manager (chain_of [hi_step]))),
          snd (snd (executeChain echo_invoke 0 echo_manager (chain_of [hi_step]))))"
    using first by (simp add: prod_eq_iff)
  have ok2: "every_success [success_result (JStr ''hi'') None] = Inr True"
    by (simp add: result_defs)
  from executeChain_chain_entry [where invoke = executeTool and now = 0 and m = echo_manager
        and chain = "chain_of [tagged_hi_step]"
        and rs = "[step_failure ''Tool execution not implemented'' (Some [(''tag'', JStr ''x'')])]"
        and m' = echo_manager
        and calls = "[(echo_tool, params tagged_hi_step, initial_context)]"]
    executeChain_chain_entry [where invoke = executeTool and now = 7 and m = echo_manager
        and chain = "chain_of []" and rs = "[]" and m' = ?m7 and calls = "[]"]
    executeChain_chain_entry [where invoke = executeTool and now = 9 and m = ?m7
        and chain = "chain_of []"]
    executeChain_chain_entry [where invoke = echo_invoke and now = 0 and m = echo_manager
        and chain = "chain_of [hi_step]" and rs = "[success_result (JStr ''hi'') None]"
        and m' = "fst (snd (executeChain echo_invoke 0 echo_manager (chain_of [hi_step])))"
        and calls = "snd (snd (executeChain echo_invoke 0 echo_manager (chain_of [hi_step])))"]
  show ?thesis
    using src miss1 run1 fail1 none miss0 run0 ok0 hit miss2 first run2 ok2
    by (simp add: chain_of_def)
qed

text \<open>
  The claim as stated fails on a call that is served from the whole-chain entry. The
  chain without steps is run twice by the manager of the source: every result of the
  second run succeeded (there is none), and the second run stores nothing, the entry
  under the chain key is still the one written at the instant of the first run.
\<close>

theorem executeChain_served_chain_counterexample:
  "executeChain executeTool 0 echo_manager (chain_of [])
     = (Inr (JArr []), echo_manager\<lparr>cache := Map.empty([] \<mapsto> empty_entry 0)\<rparr>, [])
   \<and> executeChain executeTool 60000 (echo_manager\<lparr>cache := Map.empty([] \<mapsto> empty_entry 0)\<rparr>)
        (chain_of [])
     = (Inr (JArr []), echo_manager\<lparr>cache := Map.empty([] \<mapsto> empty_entry 0)\<rparr>, [])
   \<and> every_success [] = Inr True
   \<and> cache (fst (snd (executeChain executeTool 60000
                (echo_manager\<lparr>cache := Map.empty([] \<mapsto> empty_entry 0)\<rparr>) (chain_of []))))
        (generateChainKey (steps (chain_of [])))
     = Some \<lparr>result = ''[]'', timestamp = 0, ttl = 3600, metadata = None\<rparr>"
  by (simp add: example_defs run_defs empty_entry_def JSON_parse_def)

section \<open>The empty chain\<close>

lemma stringify_empty_array: "JSON_stringify (JArr []) = ''[]''"
  by (simp add: JSON_stringify.simps)

lemma cache_inv_empty_key:
  assumes "cache_inv st" and "st [] = Some e"
  shows "result e = ''[]''" and "ttl e = 3600"
proof -
  from assms have "payload_ok [] (result e)" "ttl e = 3600"
    by (auto simp: cache_inv_def)
  then show "result e = ''[]''" and "ttl e = 3600"
    by (auto simp: payload_ok_def stringify_empty_array)
qed

text \<open>
  Claim C10, as amended. In every reachable state, \<open>executeChain\<close> on a chain without
  steps returns the empty list and calls no tool; the chain key is the empty string, and
  after the call the store holds the text \<open>[]\<close> under it, unexpired, with a TTL of
  one hour. When the lookup finds no unexpired entry, the entry is written at this call;
  when it finds one, the call is served from it and leaves the manager as it was.
\<close>

theorem executeChain_empty_chain:
  assumes "reachable m" and "steps chain = []"
  shows "generateChainKey (steps chain) = []
    \<and> fst (executeChain invoke now m chain) = Inr (JArr [])
    \<and> snd (snd (executeChain invoke now m chain)) = []
    \<and> (\<exists>e. cache (fst (snd (executeChain invoke now m chain))) [] = Some e
          \<and> result e = ''[]'' \<and> ttl e = 3600 \<and> \<not> now - timestamp e > ttl e * 1000)
    \<and> (fst (cache_get now [] (cache m)) = None \<longrightarrow>
          cache (fst (snd (executeChain invoke now m chain))) []
            = Some \<lparr>result = ''[]'', timestamp = now, ttl = 3600, metadata = None\<rparr>)
    \<and> (fst (cache_get now [] (cache m)) \<noteq> None \<longrightarrow>
          fst (snd (executeChain invoke now m chain)) = m)"
proof -
  have inv: "cache_inv (cache m)" using assms(1) by (rule reachable_inv)
  have K: "generateChainKey (steps chain) = []"
    using assms(2) by (simp add: generateChainKey_Nil)
  obtain c st0 where g: "cache_get now [] (cache m) = (c, st0)"
    by (cases "cache_get now [] (cache m)") auto
  have fresh: "executeChain invoke now m chain
      = (Inr (JArr []),
         m\<lparr>cache := cache_set now [] ''[]'' 3600 None st0\<rparr>, [])"
    if "parse_cached c = None"
    using that g assms(2) K by (simp add: executeChain_def stringify_empty_array)
  from g show ?thesis
  proof (cases rule: cache_get_cases)
    case absent
    then have "parse_cached c = None" by (simp add: parse_cached_def)
    from fresh [OF this] K g absent show ?thesis
      by (simp add: cache_set_def)
  next
    case (expired e)
    then have "parse_cached c = None" by (simp add: parse_cached_def)
    from fresh [OF this] K g expired show ?thesis
      by (simp add: cache_set_def)
  next
    case (live e)
    have e: "result e = ''[]''" "ttl e = 3600"
      using cache_inv_empty_key [OF inv live(1)] by simp_all
    have "parse_cached c = Some (JArr [])"
      using live(3) e(1) parse_cached_stringify [of "JArr []"]
      by (simp add: stringify_empty_array)
    with g assms(2) K live have "executeChain invoke now m chain = (Inr (JArr []), m, [])"
      by (simp add: executeChain_def)
    with K g live e show ?thesis by (simp add: expired_def)
  qed
qed

theorem executeChain_empty_chain_witness:
  "reachable new_manager
   \<and> executeChain executeTool 5 new_manager (chain_of [])
       = (Inr (JArr []), new_manager\<lparr>cache := Map.empty([] \<mapsto> empty_entry 5)\<rparr>, [])
   \<and> generateChainKey (steps (chain_of [])) = []
   \<and> reachable (new_manager\<lparr>cache := Map.empty([] \<mapsto> empty_entry 5)\<rparr>)
   \<and> fst (cache_get 3600005 [] (cache (new_manager\<lparr>cache := Map.empty([] \<mapsto> empty_entry 5)\<rparr>)))
       = Some ''[]''
   \<and> executeChain executeTool 3600005 (new_manager\<lparr>cache := Map.empty([] \<mapsto> empty_entry 5)\<rparr>)
        (chain_of [])
       = (Inr (JArr []), new_manager\<lparr>cache := Map.empty([] \<mapsto> empty_entry 5)\<rparr>, [])"
proof -
  let ?m5 = "new_manager\<lparr>cache := Map.empty([] \<mapsto> empty_entry 5)\<rparr>"
  have first: "executeChain executeTool 5 new_manager (chain_of []) = (Inr (JArr []), ?m5, [])"
    using executeChain_empty_chain [OF reachable.init, of "chain_of []" executeTool 5]
    by (simp add: example_defs run_defs empty_entry_def prod_eq_iff)
  have r5: "reachable ?m5" using reachable.init first by (rule reachable.execute)
  have live: "fst (cache_get 3600005 [] (cache ?m5)) = Some ''[]''"
    by (simp add: run_defs empty_entry_def)
  have "steps (chain_of []) = []" by (simp add: chain_of_def)
  from executeChain_empty_chain [OF r5 this, of executeTool 3600005] live
  have "executeChain executeTool 3600005 ?m5 (chain_of []) = (Inr (JArr []), ?m5, [])"
    by (simp add: prod_eq_iff)
  with first r5 live reachable.init show ?thesis by (simp add: chain_of_def generateChainKey_Nil)
qed

text \<open>
  The claim as stated fails on a second call within the hour: it returns the empty list
  and stores nothing, the entry under the empty key keeps the instant of the first call.
\<close>

theorem executeChain_empty_chain_served_counterexample:
  "executeChain executeTool 5 new_manager (chain_of [])
     = (Inr (JArr []), new_manager\<lparr>cache := Map.empty([] \<mapsto> empty_entry 5)\<rparr>, [])
   \<and> executeChain executeTool 1000 (new_manager\<lparr>cache := Map.empty([] \<mapsto> empty_entry 5)\<rparr>)
        (chain_of [])
     = (Inr (JArr []), new_manager\<lparr>cache := Map.empty([] \<mapsto> empty_entry 5)\<rparr>, [])
   \<and> generateChainKey (steps (chain_of [])) = []
   \<and> cache (fst (snd (executeChain executeTool 1000
                (new_manager\<lparr>cache := Map.empty([] \<mapsto> empty_entry 5)\<rparr>) (chain_of [])))) []
     = Some \<lparr>result = ''[]'', timestamp = 5, ttl = 3600, metadata = None\<rparr>"
  by (simp add: example_defs run_defs empty_entry_def JSON_parse_def)

end
